theory Spec2Isabelle
  imports
    Main
    "HOL-Library.AList"
    "HOL-Library.Char_ord"
    "HOL-Library.List_Lexorder"
    "HOL-Library.Product_Lexorder"
    "HOL-Library.FSet"
    "HOL-Library.Multiset"
    "HOL-Library.Word"
begin

unbundle bit_operations_syntax

section \<open>The range partition assignor (aiokafka/coordinator/assignors/range.py)\<close>

subsection \<open>Data model\<close>

text \<open>
  Member ids and topic names are Python \<^verbatim>\<open>str\<close>; they are compared by code point,
  which on \<^typ>\<open>string\<close> is the lexicographic order of \<^theory_text>\<open>List_Lexorder\<close> over
  \<^theory_text>\<open>Char_ord\<close>.  Byte strings are lists of 8-bit words.
\<close>

type_synonym member_id = string
type_synonym topic = string
type_synonym bytes = "8 word list"

text \<open>
  \<^verbatim>\<open>ConsumerProtocolMemberMetadata(version, subscription, user_data)\<close> and
  \<^verbatim>\<open>ConsumerProtocolMemberAssignment(version, assignment, user_data)\<close>.  The two
  classes are declared in aiokafka/coordinator/protocol.py; their fields are taken in
  the order of the constructor calls in range.py.  The field names carry a prefix
  because both classes use \<^verbatim>\<open>version\<close> and \<^verbatim>\<open>user_data\<close>.
\<close>

record ConsumerProtocolMemberMetadata =
  md_version :: int
  md_subscription :: "topic list"
  md_user_data :: bytes

record ConsumerProtocolMemberAssignment =
  as_version :: int
  as_assignment :: "(topic \<times> int list) list"
  as_user_data :: bytes

text \<open>
  \<^verbatim>\<open>cluster.partitions_for_topic(topic)\<close> returns a set of partition ids or
  \<^verbatim>\<open>None\<close>.  The cluster metadata is an argument of \<^verbatim>\<open>assign\<close>; it is the lookup
  function itself here.
\<close>

type_synonym ClusterMetadata = "topic \<Rightarrow> int fset option"

text \<open>
  A Python \<^verbatim>\<open>dict\<close> keeps its keys in insertion order.  It is an association list:
  \<^const>\<open>AList.update\<close> overwrites the value of a present key in place and puts a new
  key at the end, as \<^verbatim>\<open>d[k] = v\<close> does.  \<^verbatim>\<open>members\<close> is such a dict.
\<close>

type_synonym members_dict = "(member_id \<times> ConsumerProtocolMemberMetadata) list"

text \<open>
  \<^verbatim>\<open>assignment\<close> is a \<^verbatim>\<open>defaultdict(dict)\<close> that is only ever indexed by member
  id: a function from member ids to inner dicts, the empty dict where nothing was
  stored.
\<close>

type_synonym assignment_dict = "member_id \<Rightarrow> (topic \<times> int list) list"

datatype error = ZeroDivisionError

definition name :: string where
  "name = ''range''"

definition version :: int where
  "version = 0"

subsection \<open>assign\<close>

text \<open>\<^verbatim>\<open>d[k].append(v)\<close> on a \<^verbatim>\<open>defaultdict(list)\<close>.\<close>

definition dd_append :: "('k \<times> 'v list) list \<Rightarrow> 'k \<Rightarrow> 'v \<Rightarrow> ('k \<times> 'v list) list" where
  "dd_append d k v =
     AList.update k ((case map_of d k of None \<Rightarrow> [] | Some vs \<Rightarrow> vs) @ [v]) d"

text \<open>Lines 42--45: the two nested loops that fill \<^verbatim>\<open>consumers_per_topic\<close>.\<close>

definition consumers_per_topic :: "members_dict \<Rightarrow> (topic \<times> member_id list) list" where
  "consumers_per_topic members =
     fold (\<lambda>(member, metadata) d.
             fold (\<lambda>topic d'. dd_append d' topic member) (md_subscription metadata) d)
          members []"

text \<open>Lines 61--67: the loop over \<^verbatim>\<open>enumerate(consumers_for_topic)\<close>.\<close>

definition assign_step ::
  "topic \<Rightarrow> int list \<Rightarrow> nat \<Rightarrow> nat \<Rightarrow> nat \<times> member_id \<Rightarrow> assignment_dict \<Rightarrow> assignment_dict" where
  "assign_step topic partitions_list partitions_per_consumer consumers_with_extra =
     (\<lambda>(i, member) assignment.
        let start = partitions_per_consumer * i;
            start = start + min i consumers_with_extra;
            length' = partitions_per_consumer;
            length' = (if \<not> i + 1 > consumers_with_extra then length' + 1 else length')
        in assignment(member :=
             AList.update topic (take length' (drop start partitions_list))
               (assignment member)))"

text \<open>
  Lines 50--67: the loop over \<^verbatim>\<open>consumers_per_topic.items()\<close>.  \<^verbatim>\<open>//\<close> and \<^verbatim>\<open>%\<close>
  raise \<^verbatim>\<open>ZeroDivisionError\<close> on a zero divisor.  A topic without partition metadata
  is skipped; the warning that is logged for it does not enter the result.
\<close>

fun assign_topics ::
  "ClusterMetadata \<Rightarrow> (topic \<times> member_id list) list \<Rightarrow> assignment_dict \<Rightarrow> error + assignment_dict" where
  "assign_topics cluster [] assignment = Inr assignment"
| "assign_topics cluster ((topic, consumers_for_topic) # rest) assignment =
     (case cluster topic of
        None \<Rightarrow> assign_topics cluster rest assignment
      | Some partitions \<Rightarrow>
          let partitions_list = sorted_list_of_fset partitions;
              consumers_for_topic = sort consumers_for_topic
          in if length consumers_for_topic = 0 then Inl ZeroDivisionError
             else
               let partitions_per_consumer = length partitions_list div length consumers_for_topic;
                   consumers_with_extra = length partitions_list mod length consumers_for_topic
               in assign_topics cluster rest
                    (fold (assign_step topic partitions_list partitions_per_consumer
                             consumers_with_extra)
                       (enumerate 0 consumers_for_topic) assignment))"

text \<open>
  Lines 69--74: the loop that builds \<^verbatim>\<open>protocol_assignment\<close>.  \<^verbatim>\<open>sorted\<close> compares the
  (topic, partitions) tuples of the inner dict lexicographically, which is the order of
  \<^theory_text>\<open>Product_Lexorder\<close> on pairs of a string and a list of integers.
\<close>

definition protocol_assignment ::
  "members_dict \<Rightarrow> assignment_dict \<Rightarrow> (member_id \<times> ConsumerProtocolMemberAssignment) list" where
  "protocol_assignment members assignment =
     fold (\<lambda>member_id pa.
             AList.update member_id
               \<lparr>as_version = version, as_assignment = sort (assignment member_id),
                as_user_data = []\<rparr> pa)
          (map fst members) []"

definition assign ::
  "ClusterMetadata \<Rightarrow> members_dict \<Rightarrow> error + (member_id \<times> ConsumerProtocolMemberAssignment) list" where
  "assign cluster members =
     (case assign_topics cluster (consumers_per_topic members) (\<lambda>_. []) of
        Inl e \<Rightarrow> Inl e
      | Inr assignment \<Rightarrow> Inr (protocol_assignment members assignment))"

text \<open>
  Lines 76--78: \<^verbatim>\<open>metadata\<close> builds a subscription from a set of topics.  \<^verbatim>\<open>list(topics)\<close>
  lists every topic of the set once, in an order that Python leaves open; the
  ascending order stands for it here.
\<close>

definition metadata :: "topic fset \<Rightarrow> ConsumerProtocolMemberMetadata" where
  "metadata topics =
     \<lparr>md_version = version, md_subscription = sorted_list_of_fset topics, md_user_data = []\<rparr>"

section \<open>The legacy record batch codec (aiokafka/record/legacy\_records.py)\<close>

text \<open>
  Modelled from the spec: the module aiokafka/record/legacy\_records.py with its classes
  \<^verbatim>\<open>LegacyRecordBatchBuilder\<close> and \<^verbatim>\<open>LegacyRecordBatch\<close> is not among the sources;
  only tests/record/test\_legacy.py is.  The definitions of this section follow
  sections 3, 4.2, 4.3, 6 and 7 of the specification.  Where the specification leaves
  a width or a constant open, the value is the one that the test file fixes:
  \<^verbatim>\<open>ATTRIBUTES_OFFSET = 17\<close>, \<^verbatim>\<open>TIMESTAMP_OFFSET = 18\<close> with the timestamp written by
  \<^verbatim>\<open>struct.pack_into(">q", ...)\<close>, \<^verbatim>\<open>TIMESTAMP_TYPE_MASK = 0x08\<close>, the metadata timestamp
  \<^verbatim>\<open>-1\<close> of format version 0, and the batch lengths 119 and 95 of
  \<^verbatim>\<open>test_legacy_batch_builder_validates_arguments\<close>.
\<close>

subsection \<open>Integers on the wire\<close>

text \<open>
  Modelled from the spec: the fixed-width integer fields of the byte layout of section
  6, big-endian and in two's complement as \<^verbatim>\<open>struct\<close> format \<^verbatim>\<open>">q"\<close> writes them.
  \<open>be_bytes n v\<close> are the \<open>n\<close> low-order bytes of \<open>v\<close>, most significant first.
\<close>

fun be_bytes :: "nat \<Rightarrow> int \<Rightarrow> bytes" where
  "be_bytes 0 v = []"
| "be_bytes (Suc n) v = be_bytes n (v div 256) @ [word_of_int v]"

text \<open>Modelled from the spec: reading a big-endian field as an unsigned integer.\<close>

definition be_uint :: "bytes \<Rightarrow> int" where
  "be_uint bs = foldl (\<lambda>acc b. acc * 256 + uint b) 0 bs"

text \<open>Modelled from the spec: reading a big-endian field as a signed integer.\<close>

definition be_sint :: "bytes \<Rightarrow> int" where
  "be_sint bs =
     (let u = be_uint bs
      in if 256 ^ length bs \<le> 2 * u then u - 256 ^ length bs else u)"

subsection \<open>Checksum\<close>

text \<open>
  Modelled from the spec: the \<^verbatim>\<open>crc32\<close> field of the byte layout, "a cyclic-redundancy
  checksum".  It is the CRC-32 of zlib (reflected polynomial \<open>0xEDB88320\<close>, initial
  value and final complement \<open>0xFFFFFFFF\<close>), a Python \<^verbatim>\<open>int\<close> from 0 to \<open>2 ^ 32 - 1\<close>;
  with it and the byte layout below, the two checksums that the test file expects come
  out.
\<close>

definition crc32_step :: "int \<Rightarrow> int" where
  "crc32_step c = (if odd c then (c div 2) XOR 0xEDB88320 else c div 2)"

text \<open>Modelled from the spec: one byte of input to the checksum.\<close>

definition crc32_update :: "int \<Rightarrow> 8 word \<Rightarrow> int" where
  "crc32_update c b = (crc32_step ^^ 8) (c XOR uint b)"

text \<open>Modelled from the spec: the checksum of a byte range.\<close>

definition crc32 :: "bytes \<Rightarrow> int" where
  "crc32 bs = foldl crc32_update 0xFFFFFFFF bs XOR 0xFFFFFFFF"

subsection \<open>Byte layout of a record\<close>

text \<open>
  Modelled from the spec: the sizes of the fixed fields.  Offset (8 bytes) and length
  (4 bytes) precede the checksum; checksum (4), magic (1), attributes (1), the
  timestamp of format version 1 (8), key length (4) and value length (4) make up the
  rest of the header.
\<close>

definition LOG_OVERHEAD :: nat where
  "LOG_OVERHEAD = 12"

text \<open>Modelled from the spec: header bytes from the checksum on, per format version.\<close>

definition record_overhead :: "nat \<Rightarrow> nat" where
  "record_overhead magic = (if magic = 0 then 14 else 22)"

text \<open>Modelled from the spec: the attribute bits (compression codec, timestamp type).\<close>

definition CODEC_MASK :: nat where
  "CODEC_MASK = 0x07"

text \<open>Modelled from the spec: the attribute bit that marks a log-append timestamp.\<close>

definition TIMESTAMP_TYPE_MASK :: nat where
  "TIMESTAMP_TYPE_MASK = 0x08"

text \<open>
  Modelled from the spec: a length-prefixed optional byte sequence
  (\<^verbatim>\<open>[key length + key]\<close>, \<^verbatim>\<open>[value length + value]\<close>); an absent one has length \<open>-1\<close>.
\<close>

definition encode_bytes :: "bytes option \<Rightarrow> bytes" where
  "encode_bytes x = (case x of None \<Rightarrow> be_bytes 4 (-1) | Some bs \<Rightarrow> be_bytes 4 (int (length bs)) @ bs)"

text \<open>
  Modelled from the spec: the byte range that the record-level checksum covers,
  \<^verbatim>\<open>[magic][attributes][timestamp (v1 only)][key length + key][value length + value]\<close>.
\<close>

definition record_body :: "nat \<Rightarrow> nat \<Rightarrow> int \<Rightarrow> bytes option \<Rightarrow> bytes option \<Rightarrow> bytes" where
  "record_body magic attributes timestamp key value =
     [of_nat magic, of_nat attributes] @
     (if magic = 0 then [] else be_bytes 8 timestamp) @
     encode_bytes key @ encode_bytes value"

text \<open>
  Modelled from the spec: one encoded record,
  \<^verbatim>\<open>[offset][length][crc32][magic][attributes]...\<close>; the length counts the bytes after
  the length field.
\<close>

definition encode_msg ::
  "nat \<Rightarrow> int \<Rightarrow> nat \<Rightarrow> int \<Rightarrow> bytes option \<Rightarrow> bytes option \<Rightarrow> bytes" where
  "encode_msg magic offset attributes timestamp key value =
     (let body = record_body magic attributes timestamp key value
      in be_bytes 8 offset @ be_bytes 4 (int (4 + length body)) @
         be_bytes 4 (crc32 body) @ body)"

text \<open>Modelled from the spec: \<^verbatim>\<open>len(x)\<close> of an optional byte sequence, 0 when absent.\<close>

definition size_of :: "bytes option \<Rightarrow> nat" where
  "size_of x = (case x of None \<Rightarrow> 0 | Some bs \<Rightarrow> length bs)"

subsection \<open>Builder\<close>

text \<open>
  Modelled from the spec: the Builder, constructed with a format version, a compression
  codec and a maximum batch size, and owning the buffer of the records accepted so far.
\<close>

record LegacyRecordBatchBuilder =
  bld_magic :: nat
  bld_compression_type :: nat
  bld_batch_size :: nat
  bld_buffer :: bytes

text \<open>
  Modelled from the spec: the Record Metadata, \<^verbatim>\<open>LegacyRecordMetadata(offset, crc, size,
  timestamp)\<close> in the tests.
\<close>

record LegacyRecordMetadata =
  lrm_offset :: int
  lrm_crc :: int
  lrm_size :: nat
  lrm_timestamp :: int

text \<open>
  Modelled from the spec: the error taxonomy of section 7, (a) input validation errors
  and (d) corruption on read.
\<close>

datatype record_error = InvalidArgument | CorruptRecord

text \<open>Modelled from the spec: \<^verbatim>\<open>new(format_version, compression_codec, max_batch_size)\<close>.\<close>

definition new_builder :: "nat \<Rightarrow> nat \<Rightarrow> nat \<Rightarrow> LegacyRecordBatchBuilder" where
  "new_builder magic compression_type batch_size =
     \<lparr>bld_magic = magic, bld_compression_type = compression_type,
      bld_batch_size = batch_size, bld_buffer = []\<rparr>"

text \<open>
  Modelled from the spec: \<^verbatim>\<open>size_in_bytes\<close>, "fixed header fields + key length + value
  length".
\<close>

definition size_in_bytes :: "nat \<Rightarrow> bytes option \<Rightarrow> bytes option \<Rightarrow> nat" where
  "size_in_bytes magic key value =
     LOG_OVERHEAD + record_overhead magic + size_of key + size_of value"

text \<open>Modelled from the spec: \<^verbatim>\<open>current_size()\<close>.\<close>

definition current_size :: "LegacyRecordBatchBuilder \<Rightarrow> nat" where
  "current_size b = length (bld_buffer b)"

text \<open>
  Modelled from the spec: what the fixed-width fields can hold.  Offset and timestamp
  are signed 64-bit, the length field is signed 32-bit; an argument outside is an input
  validation error, "never silently coerced".
\<close>

definition encodable :: "int \<Rightarrow> int \<Rightarrow> nat \<Rightarrow> bool" where
  "encodable offset timestamp sz \<longleftrightarrow>
     - (2 ^ 63) \<le> offset \<and> offset < 2 ^ 63 \<and>
     - (2 ^ 63) \<le> timestamp \<and> timestamp < 2 ^ 63 \<and> sz < 2 ^ 31"

text \<open>
  Modelled from the spec: the timestamp resolution rule.  Format version 0 carries no
  timestamp (the metadata reports \<open>-1\<close>); in format version 1 an absent timestamp is
  the encode-time clock \<open>now\<close>.
\<close>

definition resolve_timestamp :: "nat \<Rightarrow> int \<Rightarrow> int option \<Rightarrow> int" where
  "resolve_timestamp magic now timestamp =
     (if magic = 0 then - 1 else (case timestamp of None \<Rightarrow> now | Some t \<Rightarrow> t))"

text \<open>
  Modelled from the spec: \<^verbatim>\<open>append(offset, timestamp, key, value)\<close> with the size-budget
  policy of section 4.2.  The first record of an empty batch is always accepted; a
  later one is rejected, with the builder unchanged, when accepting it would exceed
  the maximum batch size.  The clock is the argument \<open>now\<close>.
\<close>

definition append' ::
  "LegacyRecordBatchBuilder \<Rightarrow> int \<Rightarrow> int \<Rightarrow> int option \<Rightarrow> bytes option \<Rightarrow> bytes option \<Rightarrow>
   record_error + (LegacyRecordMetadata option \<times> LegacyRecordBatchBuilder)" where
  "append' b now offset timestamp key value =
     (let timestamp = resolve_timestamp (bld_magic b) now timestamp;
          sz = size_in_bytes (bld_magic b) key value
      in if bld_buffer b \<noteq> [] \<and> current_size b + sz > bld_batch_size b then Inr (None, b)
         else if \<not> encodable offset timestamp sz then Inl InvalidArgument
         else
           Inr (Some \<lparr>lrm_offset = offset,
                      lrm_crc = crc32 (record_body (bld_magic b) 0 timestamp key value),
                      lrm_size = sz, lrm_timestamp = timestamp\<rparr>,
                b\<lparr>bld_buffer :=
                     bld_buffer b @ encode_msg (bld_magic b) offset 0 timestamp key value\<rparr>))"

text \<open>
  Modelled from the spec: \<^verbatim>\<open>build()\<close>.  Without compression the buffer is the batch.
  With a codec, the compressed payload is "the value of a single synthetic compressed
  record" whose attributes name the codec.  The stream compressors are outside the
  repository: \<open>compress\<close> is a parameter.
\<close>

definition build :: "(nat \<Rightarrow> bytes \<Rightarrow> bytes) \<Rightarrow> LegacyRecordBatchBuilder \<Rightarrow> bytes" where
  "build compress b =
     (if bld_compression_type b = 0 then bld_buffer b
      else encode_msg (bld_magic b) 0 (bld_compression_type b) 0 None
             (Some (compress (bld_compression_type b) (bld_buffer b))))"

subsection \<open>Reader\<close>

text \<open>
  Modelled from the spec: a parsed record as the Reader exposes it (\<^verbatim>\<open>offset\<close>,
  \<^verbatim>\<open>timestamp\<close>, \<^verbatim>\<open>timestamp_type\<close>, \<^verbatim>\<open>key\<close>, \<^verbatim>\<open>value\<close>, \<^verbatim>\<open>checksum\<close> in the tests),
  with its attributes.
\<close>

record LegacyRecord =
  rec_offset :: int
  rec_timestamp :: "int option"
  rec_timestamp_type :: "nat option"
  rec_key :: "bytes option"
  rec_value :: "bytes option"
  rec_checksum :: int
  rec_attributes :: nat

text \<open>
  Modelled from the spec: reading a length-prefixed optional byte sequence at the head
  of a buffer; the result is the sequence and the bytes after it.  A negative length
  is an absent sequence; a length beyond the buffer is corruption.
\<close>

definition decode_bytes :: "bytes \<Rightarrow> record_error + (bytes option \<times> bytes)" where
  "decode_bytes buf =
     (if length buf < 4 then Inl CorruptRecord
      else
        let n = be_sint (take 4 buf); rest = drop 4 buf
        in if n < 0 then Inr (None, rest)
           else if int (length rest) < n then Inl CorruptRecord
           else Inr (Some (take (nat n) rest), drop (nat n) rest))"

text \<open>
  Modelled from the spec: decoding the bytes of one record after the length field:
  stored checksum, magic, attributes, the timestamp of format version 1 with its type
  (log-append or create, by the attribute bit), key and value.
\<close>

definition decode_msg :: "nat \<Rightarrow> int \<Rightarrow> bytes \<Rightarrow> record_error + LegacyRecord" where
  "decode_msg magic offset msg =
     (if length msg < record_overhead magic then Inl CorruptRecord
      else
        let crc = be_uint (take 4 msg);
            attributes = unat (msg ! 5);
            timestamp = (if magic = 0 then None else Some (be_sint (take 8 (drop 6 msg))));
            timestamp_type =
              (if magic = 0 then None
               else Some (if attributes AND TIMESTAMP_TYPE_MASK = 0 then 0 else 1));
            rest = drop (if magic = 0 then 6 else 14) msg
        in case decode_bytes rest of
             Inl e \<Rightarrow> Inl e
           | Inr (key, rest) \<Rightarrow>
               (case decode_bytes rest of
                  Inl e \<Rightarrow> Inl e
                | Inr (value, rest) \<Rightarrow>
                    Inr \<lparr>rec_offset = offset, rec_timestamp = timestamp,
                         rec_timestamp_type = timestamp_type, rec_key = key,
                         rec_value = value, rec_checksum = crc,
                         rec_attributes = attributes\<rparr>))"

text \<open>
  Modelled from the spec: the physical records of a buffer, in order, each with the
  byte range its checksum covers.  A truncated or malformed buffer is a decode error.
\<close>

function read_messages :: "nat \<Rightarrow> bytes \<Rightarrow> record_error + (LegacyRecord \<times> bytes) list" where
  "read_messages magic buf =
     (if buf = [] then Inr []
      else if length buf < LOG_OVERHEAD then Inl CorruptRecord
      else
        let offset = be_sint (take 8 buf);
            n = be_sint (take 4 (drop 8 buf))
        in if n < 4 \<or> int (length buf) < int LOG_OVERHEAD + n then Inl CorruptRecord
           else
             let msg = take (nat n) (drop LOG_OVERHEAD buf)
             in case decode_msg magic offset msg of
                  Inl e \<Rightarrow> Inl e
                | Inr r \<Rightarrow>
                    (case read_messages magic (drop (LOG_OVERHEAD + nat n) buf) of
                       Inl e \<Rightarrow> Inl e
                     | Inr rs \<Rightarrow> Inr ((r, drop 4 msg) # rs)))"
  by pat_completeness auto
termination
  by (relation "measure (\<lambda>(magic, buf). length buf)") (auto simp: LOG_OVERHEAD_def)

declare read_messages.simps [simp del]

text \<open>
  Modelled from the spec: the Reader, constructed over a buffer and a format version.
  If the batch is a single compressed wrapper record, its value is decompressed and
  parsed as an uncompressed batch.  \<open>decompress\<close> is a parameter, as \<open>compress\<close> is.
\<close>

definition read_batch ::
  "(nat \<Rightarrow> bytes \<Rightarrow> bytes option) \<Rightarrow> nat \<Rightarrow> bytes \<Rightarrow> record_error + LegacyRecord list" where
  "read_batch decompress magic buf =
     (case read_messages magic buf of
        Inl e \<Rightarrow> Inl e
      | Inr rs \<Rightarrow>
          (case rs of
             [(r, body)] \<Rightarrow>
               if rec_attributes r AND CODEC_MASK = 0 then Inr [r]
               else
                 (case rec_value r of
                    None \<Rightarrow> Inl CorruptRecord
                  | Some v \<Rightarrow>
                      (case decompress (rec_attributes r AND CODEC_MASK) v of
                         None \<Rightarrow> Inl CorruptRecord
                       | Some inner \<Rightarrow>
                           (case read_messages magic inner of
                              Inl e \<Rightarrow> Inl e
                            | Inr rs' \<Rightarrow> Inr (map fst rs'))))
           | _ \<Rightarrow> Inr (map fst rs)))"


section \<open>Vocabulary of the assignor properties\<close>

text \<open>
  The member ids subscribed to a topic, in lexicographic order; what a result gives a
  member for a topic (the entry of the topic in the member's assignment, when there is
  one); and the members with a topic taken out of every subscription.
\<close>

definition subscribed_members :: "members_dict \<Rightarrow> topic \<Rightarrow> member_id list" where
  "subscribed_members members t =
     sort (map fst (filter (\<lambda>(m, md). t \<in> set (md_subscription md)) members))"

definition assigned ::
  "(member_id \<times> ConsumerProtocolMemberAssignment) list \<Rightarrow> member_id \<Rightarrow> topic \<Rightarrow> int list option" where
  "assigned res m t =
     (case map_of res m of None \<Rightarrow> None | Some a \<Rightarrow> map_of (as_assignment a) t)"

definition partitions_of ::
  "(member_id \<times> ConsumerProtocolMemberAssignment) list \<Rightarrow> member_id \<Rightarrow> topic \<Rightarrow> int list" where
  "partitions_of res m t = (case assigned res m t of None \<Rightarrow> [] | Some ps \<Rightarrow> ps)"

definition unsubscribe :: "topic \<Rightarrow> members_dict \<Rightarrow> members_dict" where
  "unsubscribe t members =
     map (\<lambda>(m, md). (m, md\<lparr>md_subscription := removeAll t (md_subscription md)\<rparr>)) members"

text \<open>
  The example of the class docstring: consumers C0 and C1, topics t0 and t1 with three
  partitions each.  C0 also subscribes to t2, a topic without metadata, and carries
  one byte of user data.
\<close>

definition example_cluster :: ClusterMetadata where
  "example_cluster = (\<lambda>t. if t = ''t0'' \<or> t = ''t1'' then Some {|2, 0, 1|} else None)"

definition example_members :: members_dict where
  "example_members =
     [(''C1'', \<lparr>md_version = 0, md_subscription = [''t1'', ''t0''], md_user_data = []\<rparr>),
      (''C0'', \<lparr>md_version = 0, md_subscription = [''t0'', ''t1'', ''t2''], md_user_data = [1]\<rparr>)]"

text \<open>
  Two members on a topic with a single partition.
\<close>

definition single_partition_cluster :: ClusterMetadata where
  "single_partition_cluster = (\<lambda>t. if t = ''t'' then Some {|0|} else None)"

definition crowded_members :: members_dict where
  "crowded_members =
     [(''a'', \<lparr>md_version = 0, md_subscription = [''t''], md_user_data = []\<rparr>),
      (''b'', \<lparr>md_version = 0, md_subscription = [''t''], md_user_data = []\<rparr>)]"

text \<open>
  The set of (member id, subscription) pairs of a member dict, a subscription taken as
  the topics it lists without their order.  The example members again, stored in
  another order, with their topics listed in another order and without user data.
\<close>

definition subscription_pairs :: "members_dict \<Rightarrow> (member_id \<times> topic multiset) set" where
  "subscription_pairs members = (\<lambda>(m, md). (m, mset (md_subscription md))) ` set members"

definition example_members_reordered :: members_dict where
  "example_members_reordered =
     [(''C0'', \<lparr>md_version = 0, md_subscription = [''t2'', ''t1'', ''t0''], md_user_data = []\<rparr>),
      (''C1'', \<lparr>md_version = 0, md_subscription = [''t0'', ''t1''], md_user_data = []\<rparr>)]"

subsection \<open>Auxiliary notions of the proofs\<close>

text \<open>
  \<open>lookup_list\<close> reads a \<^verbatim>\<open>defaultdict(list)\<close>; \<open>appended\<close> is the sequence of
  member ids that the loops of lines 43--45 append under a topic; \<open>cpt_from\<close> is
  \<^const>\<open>consumers_per_topic\<close> started from any dict.  \<open>chunk\<close> is the slice of line
  67 for the member at index \<open>i\<close> of \<open>M\<close>, from \<open>chunk_start\<close> and of \<open>chunk_len\<close>
  elements; \<open>slot\<close> is the last index at which the enumeration lists a member, and
  \<open>topic_entry\<close> what the loop of one topic stores for a member.
\<close>

definition lookup_list :: "('k \<times> 'v list) list \<Rightarrow> 'k \<Rightarrow> 'v list" where
  "lookup_list d k = (case map_of d k of None \<Rightarrow> [] | Some vs \<Rightarrow> vs)"

definition appended :: "members_dict \<Rightarrow> topic \<Rightarrow> member_id list" where
  "appended members t =
     concat (map (\<lambda>(m, md). replicate (count_list (md_subscription md) t) m) members)"

definition cpt_from :: "members_dict \<Rightarrow> (topic \<times> member_id list) list \<Rightarrow> (topic \<times> member_id list) list" where
  "cpt_from members d0 = fold (\<lambda>(member, metadata) d.
             fold (\<lambda>topic d'. dd_append d' topic member) (md_subscription metadata) d)
          members d0"

definition chunk :: "'a list \<Rightarrow> nat \<Rightarrow> nat \<Rightarrow> 'a list" where
  "chunk pl M i =
     take (length pl div M + (if i < length pl mod M then 1 else 0))
       (drop (length pl div M * i + min i (length pl mod M)) pl)"

definition chunk_start :: "nat \<Rightarrow> nat \<Rightarrow> nat \<Rightarrow> nat" where
  "chunk_start P M i = P div M * i + min i (P mod M)"

definition chunk_len :: "nat \<Rightarrow> nat \<Rightarrow> nat \<Rightarrow> nat" where
  "chunk_len P M i = P div M + (if i < P mod M then 1 else 0)"

definition slot :: "(nat \<times> member_id) list \<Rightarrow> member_id \<Rightarrow> nat option" where
  "slot ies = map_of (rev (map prod.swap ies))"

definition topic_entry :: "ClusterMetadata \<Rightarrow> topic \<Rightarrow> member_id list \<Rightarrow> member_id \<Rightarrow> int list option" where
  "topic_entry c t cs m =
     (case c t of
        None \<Rightarrow> None
      | Some ps \<Rightarrow>
          (case slot (enumerate 0 (sort cs)) m of
             None \<Rightarrow> None
           | Some i \<Rightarrow> Some (chunk (sorted_list_of_fset ps) (length cs) i)))"

subsection \<open>Vocabulary of the codec properties\<close>

text \<open>
  A session with a Builder is a sequence of appends, each with the clock value at its
  time, followed by \<open>build\<close>.  \<open>append_all\<close> runs the appends and collects what each
  returned; \<open>accepted\<close> pairs the arguments of the accepted appends with their
  metadata.
\<close>

type_synonym append_args = "int \<times> int \<times> int option \<times> bytes option \<times> bytes option"

fun append_all ::
  "LegacyRecordBatchBuilder \<Rightarrow> append_args list \<Rightarrow>
   record_error + (LegacyRecordMetadata option list \<times> LegacyRecordBatchBuilder)" where
  "append_all b [] = Inr ([], b)"
| "append_all b ((now, offset, timestamp, key, value) # rest) =
     (case append' b now offset timestamp key value of
        Inl e \<Rightarrow> Inl e
      | Inr (meta, b') \<Rightarrow>
          (case append_all b' rest of
             Inl e \<Rightarrow> Inl e
           | Inr (metas, b'') \<Rightarrow> Inr (meta # metas, b'')))"

definition accepted ::
  "append_args list \<Rightarrow> LegacyRecordMetadata option list \<Rightarrow> (append_args \<times> LegacyRecordMetadata) list" where
  "accepted args metas =
     concat (map (\<lambda>(a, m). case m of None \<Rightarrow> [] | Some meta \<Rightarrow> [(a, meta)]) (zip args metas))"

text \<open>
  What an accepted append reports, writes and is read back as: the metadata, the bytes
  of the message, the bytes under its checksum and the record a Reader returns for it.
\<close>

definition metadata_of :: "nat \<Rightarrow> append_args \<Rightarrow> LegacyRecordMetadata" where
  "metadata_of magic = (\<lambda>(now, offset, timestamp, key, value).
     \<lparr>lrm_offset = offset,
      lrm_crc = crc32 (record_body magic 0 (resolve_timestamp magic now timestamp) key value),
      lrm_size = size_in_bytes magic key value,
      lrm_timestamp = resolve_timestamp magic now timestamp\<rparr>)"

definition message_of :: "nat \<Rightarrow> append_args \<Rightarrow> bytes" where
  "message_of magic = (\<lambda>(now, offset, timestamp, key, value).
     encode_msg magic offset 0 (resolve_timestamp magic now timestamp) key value)"

definition body_of :: "nat \<Rightarrow> append_args \<Rightarrow> bytes" where
  "body_of magic = (\<lambda>(now, offset, timestamp, key, value).
     record_body magic 0 (resolve_timestamp magic now timestamp) key value)"

definition record_of :: "nat \<Rightarrow> append_args \<Rightarrow> LegacyRecord" where
  "record_of magic = (\<lambda>(now, offset, timestamp, key, value).
     \<lparr>rec_offset = offset,
      rec_timestamp = (if magic = 0 then None else Some (resolve_timestamp magic now timestamp)),
      rec_timestamp_type = (if magic = 0 then None else Some 0),
      rec_key = key, rec_value = value,
      rec_checksum = crc32 (record_body magic 0 (resolve_timestamp magic now timestamp) key value),
      rec_attributes = 0\<rparr>)"

definition args_encodable :: "nat \<Rightarrow> append_args \<Rightarrow> bool" where
  "args_encodable magic = (\<lambda>(now, offset, timestamp, key, value).
     encodable offset (resolve_timestamp magic now timestamp) (size_in_bytes magic key value))"


text \<open>
  The compressors are parameters.  A codec is usable for a buffer when it is absent
  (codec 0), or lies within the codec bits of the attributes, gives the buffer back on
  decompression, and compresses it to a payload that the length field can hold.
\<close>

definition lossless_codec ::
  "(nat \<Rightarrow> bytes \<Rightarrow> bytes) \<Rightarrow> (nat \<Rightarrow> bytes \<Rightarrow> bytes option) \<Rightarrow> nat \<Rightarrow> nat \<Rightarrow> bytes \<Rightarrow> bool" where
  "lossless_codec compress decompress magic compression_type buf \<longleftrightarrow>
     compression_type = 0 \<or>
     compression_type \<le> 7 \<and>
     decompress compression_type (compress compression_type buf) = Some buf \<and>
     size_in_bytes magic None (Some (compress compression_type buf)) < 2 ^ 31"

text \<open>
  Auxiliary notions of the proofs: the record that \<open>decode_msg\<close> returns for an encoded
  message, and the range of a checksum.
\<close>

definition decoded ::
  "nat \<Rightarrow> int \<Rightarrow> nat \<Rightarrow> int \<Rightarrow> bytes option \<Rightarrow> bytes option \<Rightarrow> int \<Rightarrow> LegacyRecord" where
  "decoded magic offset attributes timestamp key value crc =
     \<lparr>rec_offset = offset,
      rec_timestamp = (if magic = 0 then None else Some timestamp),
      rec_timestamp_type =
        (if magic = 0 then None
         else Some (if attributes AND TIMESTAMP_TYPE_MASK = 0 then 0 else 1)),
      rec_key = key, rec_value = value, rec_checksum = crc, rec_attributes = attributes\<rparr>"

definition crc_range :: "int \<Rightarrow> bool" where
  "crc_range c \<longleftrightarrow> 0 \<le> c \<and> c < 2 ^ 32"

text \<open>
  Example inputs.  \<open>ascii_bytes\<close> is a byte string literal.  A run-length code (pairs
  of a count up to 255 and a byte) serves as an example of a lossless stream
  compressor.  The example builders hold one accepted record each.
\<close>

definition ascii_bytes :: "string \<Rightarrow> bytes" where
  "ascii_bytes s = map (\<lambda>c. of_nat (of_char c)) s"

fun rle_pack :: "8 word \<Rightarrow> nat \<Rightarrow> bytes \<Rightarrow> bytes" where
  "rle_pack x n [] = [of_nat n, x]"
| "rle_pack x n (y # ys) =
     (if y = x \<and> n < 255 then rle_pack x (Suc n) ys else of_nat n # x # rle_pack y 1 ys)"

definition rle_compress :: "bytes \<Rightarrow> bytes" where
  "rle_compress bs = (case bs of [] \<Rightarrow> [] | x # xs \<Rightarrow> rle_pack x 1 xs)"

fun rle_decompress :: "bytes \<Rightarrow> bytes" where
  "rle_decompress (c # x # rest) = replicate (unat c) x @ rle_decompress rest"
| "rle_decompress _ = []"

definition compressed_example :: LegacyRecordBatchBuilder where
  "compressed_example =
     \<lparr>bld_magic = 0, bld_compression_type = 1, bld_batch_size = 64,
      bld_buffer = message_of 0 (0, 0, None, None, Some (replicate 100 77))\<rparr>"


definition full_example :: LegacyRecordBatchBuilder where
  "full_example =
     \<lparr>bld_magic = 0, bld_compression_type = 0, bld_batch_size = 1024,
      bld_buffer = message_of 0 (0, 0, None, None, Some (replicate 700 77))\<rparr>"

section \<open>Properties of the assignor\<close>

subsection \<open>The loops\<close>

lemma map_of_dd_append:
  "map_of (dd_append d k v) = (map_of d)(k \<mapsto> lookup_list d k @ [v])"
  by (simp add: dd_append_def lookup_list_def update_conv')

lemma lookup_list_dd_append:
  "lookup_list (dd_append d k v) t = (if t = k then lookup_list d k @ [v] else lookup_list d t)"
  by (simp add: lookup_list_def map_of_dd_append)

lemma dom_dd_append: "fst ` set (dd_append d k v) = insert k (fst ` set d)"
  by (simp add: dd_append_def dom_update)

lemma distinct_dd_append: "distinct (map fst d) \<Longrightarrow> distinct (map fst (dd_append d k v))"
  by (simp add: dd_append_def distinct_update)

lemma nonempty_dd_append:
  assumes "\<forall>(t, cs) \<in> set d. cs \<noteq> []"
  shows "\<forall>(t, cs) \<in> set (dd_append d k v). cs \<noteq> []"
  using assms unfolding dd_append_def
  by (induction d) (auto split: if_splits)

lemma inner_fold_lookup:
  "lookup_list (fold (\<lambda>topic d'. dd_append d' topic m) tops d) t =
     lookup_list d t @ replicate (count_list tops t) m"
  by (induction tops arbitrary: d) (simp_all add: lookup_list_dd_append replicate_app_Cons_same)

lemma inner_fold_keys:
  "fst ` set (fold (\<lambda>topic d'. dd_append d' topic m) tops d) = set tops \<union> fst ` set d"
  by (induction tops arbitrary: d) (simp_all add: dom_dd_append)

lemma inner_fold_distinct:
  "distinct (map fst d) \<Longrightarrow> distinct (map fst (fold (\<lambda>topic d'. dd_append d' topic m) tops d))"
  by (induction tops arbitrary: d) (simp_all add: distinct_dd_append)

lemma inner_fold_nonempty:
  "\<forall>(t, cs) \<in> set d. cs \<noteq> [] \<Longrightarrow>
   \<forall>(t, cs) \<in> set (fold (\<lambda>topic d'. dd_append d' topic m) tops d). cs \<noteq> []"
proof (induction tops arbitrary: d)
  case Nil
  then show ?case by simp
next
  case (Cons a tops)
  show ?case using Cons.IH [OF nonempty_dd_append [OF Cons.prems]] by simp
qed

lemma cpt_from_lookup: "lookup_list (cpt_from ms d) t = lookup_list d t @ appended ms t"
  by (induction ms arbitrary: d) (auto simp: cpt_from_def appended_def inner_fold_lookup)

lemma cpt_from_distinct: "distinct (map fst d) \<Longrightarrow> distinct (map fst (cpt_from ms d))"
  by (induction ms arbitrary: d) (auto simp: cpt_from_def inner_fold_distinct)

lemma cpt_from_nonempty:
  "\<forall>(t, cs) \<in> set d. cs \<noteq> [] \<Longrightarrow> \<forall>(t, cs) \<in> set (cpt_from ms d). cs \<noteq> []"
proof (induction ms arbitrary: d)
  case Nil
  then show ?case by (simp add: cpt_from_def)
next
  case (Cons p ms)
  obtain m md where p: "p = (m, md)" by (cases p)
  have "cpt_from (p # ms) d = cpt_from ms (fold (\<lambda>topic d'. dd_append d' topic m) (md_subscription md) d)"
    by (simp add: cpt_from_def p)
  then show ?case using Cons.IH [OF inner_fold_nonempty [OF Cons.prems]] by simp
qed

lemma consumers_per_topic_lookup: "lookup_list (consumers_per_topic ms) t = appended ms t"
  using cpt_from_lookup [of ms "[]" t] by (simp add: cpt_from_def consumers_per_topic_def lookup_list_def)

lemma consumers_per_topic_distinct: "distinct (map fst (consumers_per_topic ms))"
  using cpt_from_distinct [of "[]" ms] by (simp add: cpt_from_def consumers_per_topic_def)

lemma consumers_per_topic_nonempty: "\<forall>(t, cs) \<in> set (consumers_per_topic ms). cs \<noteq> []"
  using cpt_from_nonempty [of "[]" ms] by (simp add: cpt_from_def consumers_per_topic_def)

lemma consumers_per_topic_map_of:
  "map_of (consumers_per_topic ms) t = (if appended ms t = [] then None else Some (appended ms t))"
proof (cases "map_of (consumers_per_topic ms) t")
  case None
  then show ?thesis using consumers_per_topic_lookup [of ms t] by (simp add: lookup_list_def)
next
  case (Some cs)
  then have "(t, cs) \<in> set (consumers_per_topic ms)" by (rule map_of_SomeD)
  then have "cs \<noteq> []" using consumers_per_topic_nonempty [of ms] by auto
  then show ?thesis using Some consumers_per_topic_lookup [of ms t] by (simp add: lookup_list_def)
qed

lemma assign_step_chunk:
  "assign_step t pl (length pl div M) (length pl mod M) (i, m) a =
     a(m := AList.update t (chunk pl M i) (a m))"
  by (simp add: assign_step_def chunk_def Let_def not_less Suc_le_eq)

lemma slot_Nil: "slot [] m = None"
  by (simp add: slot_def)

lemma slot_Cons: "slot ((i, m0) # ies) m =
    (case slot ies m of Some j \<Rightarrow> Some j | None \<Rightarrow> if m = m0 then Some i else None)"
  by (simp add: slot_def map_add_def split: option.splits)

lemma fold_assign_step_map_of:
  "map_of (fold (assign_step t pl (length pl div M) (length pl mod M)) ies a m) t' =
     (if t' = t then
        (case slot ies m of
           Some i \<Rightarrow> Some (chunk pl M i)
         | None \<Rightarrow> map_of (a m) t')
      else map_of (a m) t')"
proof (induction ies arbitrary: a)
  case Nil
  then show ?case by (simp add: slot_Nil)
next
  case (Cons p ies)
  obtain i m0 where p: "p = (i, m0)" by (cases p)
  show ?case
    by (simp add: p assign_step_chunk Cons.IH update_conv' slot_Cons split: option.splits)
qed

lemma fold_assign_step_distinct:
  "distinct (map fst (a m)) \<Longrightarrow>
   distinct (map fst (fold (assign_step t pl (length pl div M) (length pl mod M)) ies a m))"
proof (induction ies arbitrary: a)
  case Nil
  then show ?case by simp
next
  case (Cons p ies)
  obtain i m0 where p: "p = (i, m0)" by (cases p)
  have "distinct (map fst ((a(m0 := AList.update t (chunk pl M i) (a m0))) m))"
    using Cons.prems by (auto simp: distinct_update)
  then have "distinct (map fst (fold (assign_step t pl (length pl div M) (length pl mod M)) ies
      (a(m0 := AList.update t (chunk pl M i) (a m0))) m))"
    by (rule Cons.IH)
  then show ?case
    by (simp add: p assign_step_chunk)
qed

lemma assign_topics_not_error:
  "\<forall>(t, cs) \<in> set cpt. cs \<noteq> [] \<Longrightarrow> \<exists>a'. assign_topics c cpt a = Inr a'"
proof (induction cpt arbitrary: a)
  case Nil
  then show ?case by simp
next
  case (Cons p cpt)
  obtain t cs where p: "p = (t, cs)" by (cases p)
  from Cons.prems have ne: "cs \<noteq> []" and rest: "\<forall>(t, cs) \<in> set cpt. cs \<noteq> []"
    by (auto simp: p)
  from ne have "sort cs \<noteq> []" by (metis length_sort length_0_conv)
  then show ?case
    using Cons.IH [OF rest] by (simp add: p Let_def split: option.splits)
qed

lemma assign_topics_map_of:
  "assign_topics c cpt a = Inr a' \<Longrightarrow> distinct (map fst cpt) \<Longrightarrow>
   map_of (a' m) t =
     (case map_of cpt t of
        None \<Rightarrow> map_of (a m) t
      | Some cs \<Rightarrow> (case topic_entry c t cs m of None \<Rightarrow> map_of (a m) t | Some l \<Rightarrow> Some l))"
proof (induction cpt arbitrary: a)
  case Nil
  then show ?case by simp
next
  case (Cons p cpt)
  obtain t0 cs0 where p: "p = (t0, cs0)" by (cases p)
  from Cons.prems(2) have d: "distinct (map fst cpt)" and notin: "map_of cpt t0 = None"
    by (auto simp: p map_of_eq_None_iff)
  show ?case
  proof (cases "c t0")
    case None
    with Cons.prems(1) have "assign_topics c cpt a = Inr a'" by (simp add: p)
    from Cons.IH [OF this d] show ?thesis
      using None notin by (auto simp: p topic_entry_def split: option.splits)
  next
    case (Some ps)
    let ?pl = "sorted_list_of_fset ps"
    let ?a1 = "fold (assign_step t0 ?pl (length ?pl div length cs0) (length ?pl mod length cs0))
                 (enumerate 0 (sort cs0)) a"
    from Cons.prems(1) Some have "assign_topics c cpt ?a1 = Inr a'"
      by (simp add: p Let_def split: if_splits)
    from Cons.IH [OF this d] show ?thesis
      using Some notin
      by (auto simp: p topic_entry_def fold_assign_step_map_of split: option.splits)
  qed
qed

lemma assign_topics_distinct:
  "assign_topics c cpt a = Inr a' \<Longrightarrow> distinct (map fst (a m)) \<Longrightarrow> distinct (map fst (a' m))"
proof (induction cpt arbitrary: a)
  case Nil
  then show ?case by simp
next
  case (Cons p cpt)
  obtain t0 cs0 where p: "p = (t0, cs0)" by (cases p)
  show ?case
  proof (cases "c t0")
    case None
    with Cons.prems(1) have "assign_topics c cpt a = Inr a'" by (simp add: p)
    from Cons.IH [OF this Cons.prems(2)] show ?thesis .
  next
    case (Some ps)
    let ?pl = "sorted_list_of_fset ps"
    let ?a1 = "fold (assign_step t0 ?pl (length ?pl div length cs0) (length ?pl mod length cs0))
                 (enumerate 0 (sort cs0)) a"
    from Cons.prems(1) Some have "assign_topics c cpt ?a1 = Inr a'"
      by (simp add: p Let_def split: if_splits)
    have "distinct (map fst (?a1 m))"
      using Cons.prems(2) by (rule fold_assign_step_distinct)
    with \<open>assign_topics c cpt ?a1 = Inr a'\<close> show ?thesis by (rule Cons.IH)
  qed
qed

lemma fold_update_map_of:
  "map_of (fold (\<lambda>k pa. AList.update k (f k) pa) ks pa0) k =
     (if k \<in> set ks then Some (f k) else map_of pa0 k)"
  by (induction ks arbitrary: pa0) (auto simp: update_conv')

lemma protocol_assignment_map_of:
  "map_of (protocol_assignment members a) m =
     (if m \<in> fst ` set members then
        Some \<lparr>as_version = version, as_assignment = sort (a m), as_user_data = []\<rparr>
      else None)"
  unfolding protocol_assignment_def
  by (simp add: fold_update_map_of)

lemma chunk_alt: "chunk pl M i = take (chunk_len (length pl) M i) (drop (chunk_start (length pl) M i) pl)"
  by (simp add: chunk_def chunk_len_def chunk_start_def)

lemma chunk_start_0: "chunk_start P M 0 = 0"
  by (simp add: chunk_start_def)

lemma chunk_start_Suc: "chunk_start P M (Suc i) = chunk_start P M i + chunk_len P M i"
  by (simp add: chunk_start_def chunk_len_def min_def)

lemma chunk_start_full: "0 < M \<Longrightarrow> chunk_start P M M = P"
proof -
  assume "0 < M"
  then have "P mod M < M" by simp
  then have "min M (P mod M) = P mod M" by simp
  then show ?thesis by (simp add: chunk_start_def mult.commute)
qed

lemma chunk_start_mono: "i \<le> j \<Longrightarrow> chunk_start P M i \<le> chunk_start P M j"
  unfolding chunk_start_def by (intro add_mono mult_le_mono2 min.mono) simp_all

lemma chunk_end_le: "i < j \<Longrightarrow> chunk_start P M i + chunk_len P M i \<le> chunk_start P M j"
  using chunk_start_mono [of "Suc i" j P M] by (simp add: chunk_start_Suc)

lemma chunk_end_bound: "i < M \<Longrightarrow> chunk_start P M i + chunk_len P M i \<le> P"
  using chunk_end_le [of i M P M] by (simp add: chunk_start_full)

lemma length_chunk: "i < M \<Longrightarrow> length (chunk pl M i) = chunk_len (length pl) M i"
  using chunk_end_bound [of i M "length pl"] by (simp add: chunk_alt)

lemma concat_chunks_upto:
  "concat (map (chunk pl M) [0..<n]) = take (chunk_start (length pl) M n) pl"
proof (induction n)
  case 0
  then show ?case by (simp add: chunk_start_0)
next
  case (Suc n)
  then show ?case by (simp add: chunk_start_Suc chunk_alt take_add)
qed

lemma concat_chunks: "0 < M \<Longrightarrow> concat (map (chunk pl M) [0..<M]) = pl"
  by (simp add: concat_chunks_upto chunk_start_full)

lemma chunks_disjoint:
  assumes "distinct pl" and "i < j"
  shows "set (chunk pl M i) \<inter> set (chunk pl M j) = {}"
proof -
  let ?s = "chunk_start (length pl) M" and ?l = "chunk_len (length pl) M"
  have le: "?s i + ?l i \<le> ?s j" using assms(2) by (rule chunk_end_le)
  have "set (chunk pl M j) \<subseteq> set (drop (?s j) pl)"
    by (simp add: chunk_alt set_take_subset)
  also have "\<dots> \<subseteq> set (drop (?s i + ?l i) pl)"
    using le by (rule set_drop_subset_set_drop)
  finally have sub: "set (chunk pl M j) \<subseteq> set (drop (?l i) (drop (?s i) pl))"
    by (simp add: add.commute)
  have "distinct (drop (?s i) pl)" using assms(1) by simp
  then have "distinct (take (?l i) (drop (?s i) pl) @ drop (?l i) (drop (?s i) pl))"
    by (simp only: append_take_drop_id)
  then have "set (chunk pl M i) \<inter> set (drop (?l i) (drop (?s i) pl)) = {}"
    by (simp add: chunk_alt)
  with sub show ?thesis by blast
qed

lemma chunk_subset: "set (chunk pl M i) \<subseteq> set pl"
  by (metis chunk_alt set_drop_subset set_take_subset subset_trans)

lemma slot_enumerate_None: "m \<notin> set xs \<Longrightarrow> slot (enumerate n xs) m = None"
  by (induction xs arbitrary: n) (simp_all add: slot_Nil slot_Cons)

lemma slot_enumerate_nth:
  "distinct xs \<Longrightarrow> i < length xs \<Longrightarrow> slot (enumerate n xs) (xs ! i) = Some (n + i)"
proof (induction xs arbitrary: n i)
  case Nil
  then show ?case by simp
next
  case (Cons x xs)
  show ?case
  proof (cases i)
    case 0
    with Cons.prems show ?thesis by (simp add: slot_Cons slot_enumerate_None)
  next
    case (Suc k)
    with Cons.prems have "slot (enumerate (Suc n) xs) (xs ! k) = Some (Suc n + k)"
      by (intro Cons.IH) simp_all
    with Suc show ?thesis by (simp add: slot_Cons)
  qed
qed

lemma slot_enumerate_Some:
  "slot (enumerate n xs) m = Some j \<Longrightarrow> n \<le> j \<and> j < n + length xs \<and> xs ! (j - n) = m"
proof (induction xs arbitrary: n)
  case Nil
  then show ?case by (simp add: slot_Nil)
next
  case (Cons x xs)
  show ?case
  proof (cases "slot (enumerate (Suc n) xs) m")
    case None
    with Cons.prems show ?thesis by (simp add: slot_Cons split: if_splits)
  next
    case (Some k)
    with Cons.prems have "k = j" by (simp add: slot_Cons)
    with Some Cons.IH [of "Suc n"] have "Suc n \<le> j \<and> j < Suc n + length xs \<and> xs ! (j - Suc n) = m"
      by simp
    moreover from this have "j - n = Suc (j - Suc n)" by arith
    ultimately show ?thesis by simp
  qed
qed

lemma sort_cong_mset: "mset xs = mset ys \<Longrightarrow> sort xs = sort ys"
  by (rule properties_for_sort) simp_all

lemma distinct_keys_sort: "distinct (map fst xs) \<Longrightarrow> distinct (map fst (sort xs))"
proof -
  assume d: "distinct (map fst xs)"
  have "mset (map fst (sort xs)) = mset (map fst xs)" by simp
  then show ?thesis using d by (metis mset_eq_imp_distinct_iff)
qed

lemma map_of_sort: "distinct (map fst xs) \<Longrightarrow> map_of (sort xs) = map_of xs"
  by (subst map_of_inject_set) (simp_all add: distinct_keys_sort)

lemma sort_eq_of_map_of:
  assumes "distinct (map fst xs)" and "distinct (map fst ys)" and "map_of xs = map_of ys"
  shows "sort xs = sort ys"
proof -
  from assms have s: "set xs = set ys" by (simp add: map_of_inject_set)
  from assms(1) have "distinct xs" by (rule distinct_map [THEN iffD1, THEN conjunct1])
  moreover from assms(2) have "distinct ys" by (rule distinct_map [THEN iffD1, THEN conjunct1])
  ultimately have "mset xs = mset ys" using s by (simp add: set_eq_iff_mset_eq_distinct)
  then show ?thesis by (rule sort_cong_mset)
qed

lemma assign_entries:
  "\<exists>a. assign c ms = Inr (protocol_assignment ms a) \<and> (\<forall>m. distinct (map fst (a m))) \<and>
       (\<forall>m t. map_of (a m) t =
          (if appended ms t = [] then None else topic_entry c t (appended ms t) m))"
proof -
  from assign_topics_not_error [OF consumers_per_topic_nonempty]
  obtain a where a: "assign_topics c (consumers_per_topic ms) (\<lambda>_. []) = Inr a" by blast
  have 1: "assign c ms = Inr (protocol_assignment ms a)" by (simp add: assign_def a)
  have 2: "distinct (map fst (a m))" for m
    by (rule assign_topics_distinct [OF a]) simp
  have 3: "map_of (a m) t =
          (if appended ms t = [] then None else topic_entry c t (appended ms t) m)" for m t
    using assign_topics_map_of [OF a consumers_per_topic_distinct, of m t]
    by (simp add: consumers_per_topic_map_of split: option.splits)
  from 1 2 3 show ?thesis by blast
qed

lemma topic_entry_Nil: "topic_entry c t [] m = None"
  by (simp add: topic_entry_def enumerate_simps slot_Nil split: option.splits)

lemma assign_assigned:
  "\<exists>res. assign c ms = Inr res \<and>
     (\<forall>m. map_of res m \<noteq> None \<longleftrightarrow> m \<in> fst ` set ms) \<and>
     (\<forall>m t. assigned res m t =
        (if m \<in> fst ` set ms then topic_entry c t (appended ms t) m else None))"
proof -
  from assign_entries [of c ms] obtain a where
    1: "assign c ms = Inr (protocol_assignment ms a)" and
    2: "\<And>m. distinct (map fst (a m))" and
    3: "\<And>m t. map_of (a m) t =
          (if appended ms t = [] then None else topic_entry c t (appended ms t) m)"
    by blast
  have "assigned (protocol_assignment ms a) m t =
        (if m \<in> fst ` set ms then topic_entry c t (appended ms t) m else None)" for m t
    using 3 [of m t] by (simp add: assigned_def protocol_assignment_map_of map_of_sort [OF 2] topic_entry_Nil)
  moreover have "map_of (protocol_assignment ms a) m \<noteq> None \<longleftrightarrow> m \<in> fst ` set ms" for m
    by (simp add: protocol_assignment_map_of)
  ultimately show ?thesis using 1 by blast
qed

lemma replicate_count_list_once:
  "count_list xs t \<le> 1 \<Longrightarrow> replicate (count_list xs t) m = (if t \<in> set xs then [m] else [])"
proof (cases "t \<in> set xs")
  case True
  assume "count_list xs t \<le> 1"
  moreover from True have "count_list xs t \<noteq> 0" by (simp add: count_list_0_iff)
  ultimately have "count_list xs t = 1" by simp
  with True show ?thesis by simp
next
  case False
  then show ?thesis by (simp add: count_list_0_iff)
qed

lemma appended_listed_once:
  "\<forall>(m, md) \<in> set ms. count_list (md_subscription md) t \<le> 1 \<Longrightarrow>
   appended ms t = map fst (filter (\<lambda>(m, md). t \<in> set (md_subscription md)) ms)"
proof (induction ms)
  case Nil
  then show ?case by (simp add: appended_def)
next
  case (Cons p ms)
  obtain m md where p: "p = (m, md)" by (cases p)
  from Cons.prems have 1: "count_list (md_subscription md) t \<le> 1"
    and 2: "\<forall>(m, md) \<in> set ms. count_list (md_subscription md) t \<le> 1"
    by (simp_all add: p)
  have "appended (p # ms) t = replicate (count_list (md_subscription md) t) m @ appended ms t"
    by (simp add: appended_def p)
  then show ?case
    by (simp add: replicate_count_list_once [OF 1] Cons.IH [OF 2] p)
qed

lemma sort_appended:
  "\<forall>(m, md) \<in> set ms. count_list (md_subscription md) t \<le> 1 \<Longrightarrow>
   sort (appended ms t) = subscribed_members ms t"
  by (simp add: appended_listed_once subscribed_members_def)

lemma distinct_subscribed_members:
  "distinct (map fst ms) \<Longrightarrow> distinct (subscribed_members ms t)"
  by (simp add: subscribed_members_def distinct_map_filter)

lemma set_subscribed_members:
  "set (subscribed_members ms t) = {m. \<exists>md. (m, md) \<in> set ms \<and> t \<in> set (md_subscription md)}"
  by (auto simp: subscribed_members_def image_iff)

lemma length_sorted_list_of_fset: "length (sorted_list_of_fset A) = fcard A"
  by (simp add: sorted_list_of_fset.rep_eq fcard.rep_eq)

lemma set_sorted_list_of_fset: "set (sorted_list_of_fset A) = fset A"
  by (simp add: sorted_list_of_fset.rep_eq)

lemma distinct_sorted_list_of_fset: "distinct (sorted_list_of_fset A)"
  by (simp add: sorted_list_of_fset.rep_eq)

lemma assign_wf:
  assumes "distinct (map fst ms)"
    and "\<forall>(m, md) \<in> set ms. count_list (md_subscription md) t \<le> 1"
  shows "\<exists>res. assign c ms = Inr res \<and>
     (\<forall>m. assigned res m t =
        (case c t of
           None \<Rightarrow> None
         | Some ps \<Rightarrow>
             (case slot (enumerate 0 (subscribed_members ms t)) m of
                None \<Rightarrow> None
              | Some i \<Rightarrow> Some (chunk (sorted_list_of_fset ps) (length (subscribed_members ms t)) i))))"
proof -
  from assign_assigned [of c ms] obtain res where
    1: "assign c ms = Inr res" and
    2: "\<And>m t. assigned res m t =
        (if m \<in> fst ` set ms then topic_entry c t (appended ms t) m else None)"
    by blast
  have len: "length (appended ms t) = length (subscribed_members ms t)"
    using sort_appended [OF assms(2)] by (metis length_sort)
  have notin: "slot (enumerate 0 (subscribed_members ms t)) m = None" if "m \<notin> fst ` set ms" for m
    using that by (intro slot_enumerate_None) (auto simp: set_subscribed_members image_iff)
  have "assigned res m t =
        (case c t of
           None \<Rightarrow> None
         | Some ps \<Rightarrow>
             (case slot (enumerate 0 (subscribed_members ms t)) m of
                None \<Rightarrow> None
              | Some i \<Rightarrow> Some (chunk (sorted_list_of_fset ps) (length (subscribed_members ms t)) i)))" for m
    using notin [of m]
    by (simp add: 2 topic_entry_def sort_appended [OF assms(2)] len split: option.splits)
  with 1 show ?thesis by blast
qed

lemma partitions_of_wf:
  assumes "distinct (map fst ms)"
    and "\<forall>(m, md) \<in> set ms. count_list (md_subscription md) t \<le> 1"
    and "c t = Some ps"
  shows "\<exists>res. assign c ms = Inr res \<and>
     (\<forall>i < length (subscribed_members ms t).
        assigned res (subscribed_members ms t ! i) t =
          Some (chunk (sorted_list_of_fset ps) (length (subscribed_members ms t)) i)) \<and>
     (\<forall>m. m \<notin> set (subscribed_members ms t) \<longrightarrow> assigned res m t = None)"
proof -
  from assign_wf [OF assms(1,2), of c] obtain res where
    1: "assign c ms = Inr res" and
    2: "\<And>m. assigned res m t =
        (case c t of
           None \<Rightarrow> None
         | Some ps \<Rightarrow>
             (case slot (enumerate 0 (subscribed_members ms t)) m of
                None \<Rightarrow> None
              | Some i \<Rightarrow> Some (chunk (sorted_list_of_fset ps) (length (subscribed_members ms t)) i)))"
    by blast
  have d: "distinct (subscribed_members ms t)"
    using assms(1) by (rule distinct_subscribed_members)
  have "assigned res (subscribed_members ms t ! i) t =
          Some (chunk (sorted_list_of_fset ps) (length (subscribed_members ms t)) i)"
    if "i < length (subscribed_members ms t)" for i
    using slot_enumerate_nth [OF d that, of 0] by (simp add: 2 assms(3))
  moreover have "assigned res m t = None" if "m \<notin> set (subscribed_members ms t)" for m
    using slot_enumerate_None [OF that, of 0] by (simp add: 2 assms(3))
  ultimately show ?thesis using 1 by blast
qed

lemma mset_appended:
  assumes "mset ms = mset ms'"
  shows "mset (appended ms t) = mset (appended ms' t)"
proof -
  let ?f = "\<lambda>(m, md). replicate (count_list (md_subscription md) t) m"
  have "mset (concat (map ?f xs)) = sum_mset (image_mset (mset \<circ> ?f) (mset xs))" for xs :: members_dict
    by (induction xs) simp_all
  then show ?thesis using assms by (simp add: appended_def)
qed

lemma topic_entry_cong:
  assumes s: "sort cs = sort cs'" and l: "length cs = length cs'"
  shows "topic_entry c t cs m = topic_entry c t cs' m"
  unfolding topic_entry_def s l by (rule refl)

lemma topic_entry_mset:
  assumes "mset cs = mset cs'"
  shows "topic_entry c t cs m = topic_entry c t cs' m"
  using sort_cong_mset [OF assms] mset_eq_length [OF assms] by (rule topic_entry_cong)

lemma count_list_removeAll:
  "count_list (removeAll t xs) t' = (if t' = t then 0 else count_list xs t')"
  by (induction xs) auto

lemma appended_unsubscribe:
  "appended (unsubscribe t ms) t' = (if t' = t then [] else appended ms t')"
  by (induction ms) (auto simp: appended_def unsubscribe_def count_list_removeAll)

lemma protocol_assignment_cong:
  assumes "map fst ms = map fst ms'" and "\<And>m. sort (a m) = sort (b m)"
  shows "protocol_assignment ms a = protocol_assignment ms' b"
  unfolding protocol_assignment_def by (simp add: assms)

lemma set_appended:
  "set (appended ms t) = {m. \<exists>md. (m, md) \<in> set ms \<and> t \<in> set (md_subscription md)}"
proof -
  have "0 < count_list xs t \<longleftrightarrow> t \<in> set xs" for xs :: "topic list"
    by (induction xs) auto
  then show ?thesis
    by (induction ms) (auto simp: appended_def)
qed

lemma sorted_keys_sort:
  fixes xs :: "(topic \<times> int list) list"
  shows "sorted (map fst (sort xs))"
proof -
  have "sorted (sort xs)" by simp
  then have "sorted_wrt (\<lambda>x y. fst x \<le> fst y) (sort xs)"
    by (rule sorted_wrt_mono_rel [rotated]) (auto simp: less_eq_prod_def)
  then show ?thesis by (simp add: sorted_map)
qed

subsection \<open>Members that differ in order only\<close>

lemma mset_appended_pairs:
  assumes "distinct (map fst ms)" and "distinct (map fst ms')"
    and "subscription_pairs ms = subscription_pairs ms'"
  shows "mset (appended ms t) = mset (appended ms' t)"
proof -
  let ?g = "\<lambda>(m, md). (m, mset (md_subscription md))"
  let ?h = "\<lambda>(m, M). replicate_mset (count M t) m"
  have app: "mset (appended xs t) = sum_mset (image_mset ?h (mset (map ?g xs)))" for xs :: members_dict
    by (induction xs) (auto simp: appended_def count_mset)
  have d: "distinct (map ?g xs)" if "distinct (map fst xs)" for xs :: members_dict
  proof -
    have "map fst (map ?g xs) = map fst xs" by (induction xs) auto
    with that show ?thesis by (metis distinct_map)
  qed
  have "set (map ?g ms) = set (map ?g ms')"
    using assms(3) by (simp add: subscription_pairs_def)
  with d [OF assms(1)] d [OF assms(2)] have "mset (map ?g ms) = mset (map ?g ms')"
    by (simp only: set_eq_iff_mset_eq_distinct)
  then show ?thesis by (simp only: app)
qed

lemma subscription_pairs_keys:
  "subscription_pairs ms = subscription_pairs ms' \<Longrightarrow> fst ` set ms = fst ` set ms'"
proof -
  assume eq: "subscription_pairs ms = subscription_pairs ms'"
  have "fst ` subscription_pairs xs = fst ` set xs" for xs
    by (force simp: subscription_pairs_def image_iff)
  with eq show ?thesis by metis
qed

lemma subscription_pairs_of_sets:
  assumes "\<forall>(m, md) \<in> set ms. distinct (md_subscription md)"
    and "\<forall>(m, md) \<in> set ms'. distinct (md_subscription md)"
    and "(\<lambda>(m, md). (m, set (md_subscription md))) ` set ms =
         (\<lambda>(m, md). (m, set (md_subscription md))) ` set ms'"
  shows "subscription_pairs ms = subscription_pairs ms'"
proof -
  let ?s = "\<lambda>(m, md). (m, set (md_subscription md))"
  have sub: "subscription_pairs xs \<subseteq> subscription_pairs ys"
    if dx: "\<forall>(m, md) \<in> set xs. distinct (md_subscription md)"
      and dy: "\<forall>(m, md) \<in> set ys. distinct (md_subscription md)"
      and im: "?s ` set xs \<subseteq> ?s ` set ys" for xs ys :: members_dict
  proof
    fix p assume "p \<in> subscription_pairs xs"
    then obtain m md where x: "(m, md) \<in> set xs" and p: "p = (m, mset (md_subscription md))"
      by (auto simp: subscription_pairs_def)
    from x have "?s (m, md) \<in> ?s ` set xs" by (rule imageI)
    with im have "?s (m, md) \<in> ?s ` set ys" by blast
    then obtain md' where y: "(m, md') \<in> set ys"
      and s: "set (md_subscription md) = set (md_subscription md')"
      by auto
    from dx x have "distinct (md_subscription md)" by auto
    moreover from dy y have "distinct (md_subscription md')" by auto
    ultimately have "mset (md_subscription md) = mset (md_subscription md')"
      using s by (simp add: set_eq_iff_mset_eq_distinct)
    with y show "p \<in> subscription_pairs ys"
      by (force simp: subscription_pairs_def p)
  qed
  from assms show ?thesis by (intro equalityI sub) simp_all
qed

lemma assign_runs:
  assumes "assign c ms = Inr res" and "distinct (map fst ms)"
    and "\<forall>(m, md) \<in> set ms. count_list (md_subscription md) t \<le> 1"
    and "c t = Some ps" and "i < length (subscribed_members ms t)"
  shows "assigned res (subscribed_members ms t ! i) t =
     Some (take (fcard ps div length (subscribed_members ms t) +
                   (if i < fcard ps mod length (subscribed_members ms t) then 1 else 0))
             (drop (fcard ps div length (subscribed_members ms t) * i +
                      min i (fcard ps mod length (subscribed_members ms t)))
                (sorted_list_of_fset ps)))"
proof -
  from partitions_of_wf [where c = c and t = t, OF assms(2,3,4)] assms(1,5)
  have "assigned res (subscribed_members ms t ! i) t =
      Some (chunk (sorted_list_of_fset ps) (length (subscribed_members ms t)) i)"
    by auto
  then show ?thesis by (simp add: chunk_def length_sorted_list_of_fset)
qed

lemma example_members_reordered_dict: "distinct (map fst example_members_reordered)"
  by code_simp

lemma example_members_reordered_pairs:
  "subscription_pairs example_members = subscription_pairs example_members_reordered"
  by (auto simp: subscription_pairs_def example_members_def example_members_reordered_def)

lemma distinct_lists_once: "distinct xs \<Longrightarrow> count_list xs t \<le> 1"
  by (induction xs) (auto simp: count_list_0_iff)

subsection \<open>Subscriptions built by metadata\<close>

lemma metadata_lists_once: "count_list (md_subscription (metadata topics)) t \<le> 1"
proof -
  have "distinct xs \<Longrightarrow> count_list xs t \<le> 1" for xs :: "topic list"
    by (induction xs) (auto simp: count_list_0_iff)
  then show ?thesis by (simp add: metadata_def distinct_sorted_list_of_fset)
qed

subsection \<open>The docstring example\<close>

lemma assign_example:
  "assign example_cluster example_members =
     Inr [(''C1'', \<lparr>as_version = 0, as_assignment = [(''t0'', [2]), (''t1'', [2])],
                   as_user_data = []\<rparr>),
          (''C0'', \<lparr>as_version = 0, as_assignment = [(''t0'', [0, 1]), (''t1'', [0, 1])],
                   as_user_data = []\<rparr>)]"
  by code_simp

lemma example_members_dict: "distinct (map fst example_members)"
  by code_simp

lemma example_members_once:
  "\<forall>(m, md) \<in> set example_members. count_list (md_subscription md) ''t0'' \<le> 1"
  by (simp add: example_members_def)

lemma example_subscribed: "subscribed_members example_members ''t0'' = [''C0'', ''C1'']"
  by code_simp

lemma example_partitions: "example_cluster ''t0'' = Some {|2, 0, 1|}"
  by (simp add: example_cluster_def)

subsection \<open>Coverage\<close>

text \<open>
  Claim C1.  Let \<open>members\<close> be a dict (its member ids are distinct) and let \<open>t\<close> be a
  topic with known partitions to which at least one member is subscribed.  A
  subscription is a set of topic names: the list that holds it names \<open>t\<close> at most once
  (lemmas \<open>distinct_lists_once\<close>, \<open>metadata_lists_once\<close>).  Then \<open>assign\<close> returns a
  result in which the partition lists of the members subscribed to \<open>t\<close> together make
  up exactly the partition set of \<open>t\<close>, the lists of two different members for \<open>t\<close>
  share no partition, and no list repeats a partition.
\<close>

theorem assign_coverage:
  assumes "distinct (map fst members)"
    and "\<forall>(m, md) \<in> set members. count_list (md_subscription md) t \<le> 1"
    and "cluster t = Some partitions"
    and "subscribed_members members t \<noteq> []"
  shows "\<exists>res. assign cluster members = Inr res \<and>
     (\<Union>m \<in> set (subscribed_members members t). set (partitions_of res m t)) = fset partitions \<and>
     (\<forall>m m'. m \<noteq> m' \<longrightarrow> set (partitions_of res m t) \<inter> set (partitions_of res m' t) = {}) \<and>
     (\<forall>m. distinct (partitions_of res m t))"
proof -
  let ?scs = "subscribed_members members t"
  let ?M = "length ?scs"
  let ?pl = "sorted_list_of_fset partitions"
  from partitions_of_wf [where c = cluster and t = t, OF assms(1,2,3)] obtain res where
    res: "assign cluster members = Inr res" and
    sub: "\<And>i. i < ?M \<Longrightarrow> assigned res (?scs ! i) t = Some (chunk ?pl ?M i)" and
    non: "\<And>m. m \<notin> set ?scs \<Longrightarrow> assigned res m t = None"
    by blast
  have M: "0 < ?M" using assms(4) by simp
  have dpl: "distinct ?pl" by (rule distinct_sorted_list_of_fset)
  have p_sub: "partitions_of res (?scs ! i) t = chunk ?pl ?M i" if "i < ?M" for i
    using sub [OF that] by (simp add: partitions_of_def)
  have p_non: "partitions_of res m t = []" if "m \<notin> set ?scs" for m
    using non [OF that] by (simp add: partitions_of_def)
  have nth: "set ?scs = (!) ?scs ` {0..<?M}"
    by (metis list.set_map map_nth set_upt)
  have "(\<Union>m \<in> set ?scs. set (partitions_of res m t)) =
        (\<Union>i \<in> {0..<?M}. set (partitions_of res (?scs ! i) t))"
    by (subst nth) simp
  also have "\<dots> = (\<Union>i \<in> {0..<?M}. set (chunk ?pl ?M i))"
    by (rule SUP_cong) (simp_all add: p_sub)
  also have "\<dots> = set (concat (map (chunk ?pl ?M) [0..<?M]))" by simp
  also have "\<dots> = set ?pl" using M by (simp only: concat_chunks)
  finally have cover: "(\<Union>m \<in> set ?scs. set (partitions_of res m t)) = fset partitions"
    by (simp add: set_sorted_list_of_fset)
  have disj: "set (partitions_of res m t) \<inter> set (partitions_of res m' t) = {}" if "m \<noteq> m'" for m m'
  proof (cases "m \<in> set ?scs \<and> m' \<in> set ?scs")
    case False
    then show ?thesis using p_non by auto
  next
    case True
    then obtain i j where i: "i < ?M" "?scs ! i = m" and j: "j < ?M" "?scs ! j = m'"
      by (auto simp: in_set_conv_nth)
    with that have "i \<noteq> j" by auto
    then consider "i < j" | "j < i" by arith
    then have "set (chunk ?pl ?M i) \<inter> set (chunk ?pl ?M j) = {}"
    proof cases
      case 1
      then show ?thesis using dpl by (simp add: chunks_disjoint)
    next
      case 2
      then have "set (chunk ?pl ?M j) \<inter> set (chunk ?pl ?M i) = {}"
        using dpl by (simp add: chunks_disjoint)
      then show ?thesis by blast
    qed
    then show ?thesis using p_sub [OF i(1)] p_sub [OF j(1)] i(2) j(2) by simp
  qed
  have dist: "distinct (partitions_of res m t)" for m
  proof (cases "m \<in> set ?scs")
    case False
    then show ?thesis by (simp add: p_non)
  next
    case True
    then obtain i where i: "i < ?M" "?scs ! i = m" by (auto simp: in_set_conv_nth)
    have "distinct (chunk ?pl ?M i)" using dpl by (simp add: chunk_alt)
    then show ?thesis using p_sub [OF i(1)] i(2) by simp
  qed
  from res cover disj dist show ?thesis by blast
qed

theorem assign_coverage_witness:
  "\<exists>res. assign example_cluster example_members = Inr res \<and>
     (\<Union>m \<in> set (subscribed_members example_members ''t0'').
        set (partitions_of res m ''t0'')) = fset {|2, 0, 1|} \<and>
     (\<forall>m m'. m \<noteq> m' \<longrightarrow>
        set (partitions_of res m ''t0'') \<inter> set (partitions_of res m' ''t0'') = {}) \<and>
     (\<forall>m. distinct (partitions_of res m ''t0''))"
proof -
  have "subscribed_members example_members ''t0'' \<noteq> []"
    by (simp add: example_subscribed)
  with example_members_dict example_members_once example_partitions
  show ?thesis by (rule assign_coverage)
qed

subsection \<open>Balance\<close>

text \<open>
  Claim C2.  Let \<open>members\<close> be a dict and let \<open>t\<close> be a topic with \<open>P\<close> known partitions
  and \<open>M\<close> subscribed members, the subscriptions being sets of topic names (each
  names \<open>t\<close> at most once).  The member at index \<open>i\<close> of the lexicographically sorted
  subscribed member ids receives \<open>n\<close> partitions of \<open>t\<close> with \<open>n = P div M\<close> or
  \<open>n = P div M + 1\<close>; it receives the extra partition exactly when \<open>i < P mod M\<close>;
  and its list is the run of \<open>n\<close> elements of the numerically sorted partition list
  that starts at \<open>P div M * i + min i (P mod M)\<close>.
\<close>

theorem assign_balance:
  assumes "distinct (map fst members)"
    and "\<forall>(m, md) \<in> set members. count_list (md_subscription md) t \<le> 1"
    and "cluster t = Some partitions"
    and "i < length (subscribed_members members t)"
  shows "\<exists>res. assign cluster members = Inr res \<and>
     (let P = fcard partitions;
          M = length (subscribed_members members t);
          member = subscribed_members members t ! i;
          n = length (partitions_of res member t)
      in (n = P div M \<or> n = P div M + 1) \<and>
         (n = P div M + 1 \<longleftrightarrow> i < P mod M) \<and>
         assigned res member t =
           Some (take n (drop (P div M * i + min i (P mod M)) (sorted_list_of_fset partitions))))"
proof -
  let ?scs = "subscribed_members members t"
  let ?M = "length ?scs"
  let ?pl = "sorted_list_of_fset partitions"
  from partitions_of_wf [where c = cluster and t = t, OF assms(1,2,3)] obtain res where
    res: "assign cluster members = Inr res" and
    sub: "\<And>i. i < ?M \<Longrightarrow> assigned res (?scs ! i) t = Some (chunk ?pl ?M i)"
    by blast
  have a: "assigned res (?scs ! i) t = Some (chunk ?pl ?M i)" using assms(4) by (rule sub)
  then have p: "partitions_of res (?scs ! i) t = chunk ?pl ?M i" by (simp add: partitions_of_def)
  have n: "length (chunk ?pl ?M i) = chunk_len (fcard partitions) ?M i"
    using assms(4) by (simp add: length_chunk length_sorted_list_of_fset)
  have c: "chunk ?pl ?M i = take (chunk_len (fcard partitions) ?M i)
      (drop (fcard partitions div ?M * i + min i (fcard partitions mod ?M)) ?pl)"
    by (simp add: chunk_alt chunk_start_def length_sorted_list_of_fset)
  have nlen: "length (partitions_of res (?scs ! i) t) = chunk_len (fcard partitions) ?M i"
    by (simp only: p n)
  have a': "assigned res (?scs ! i) t = Some (take (chunk_len (fcard partitions) ?M i)
      (drop (fcard partitions div ?M * i + min i (fcard partitions mod ?M)) ?pl))"
    using a c by simp
  have "let P = fcard partitions;
          M = length (subscribed_members members t);
          member = subscribed_members members t ! i;
          n = length (partitions_of res member t)
      in (n = P div M \<or> n = P div M + 1) \<and>
         (n = P div M + 1 \<longleftrightarrow> i < P mod M) \<and>
         assigned res member t =
           Some (take n (drop (P div M * i + min i (P mod M)) (sorted_list_of_fset partitions)))"
    unfolding Let_def nlen a' by (simp add: chunk_len_def)
  with res show ?thesis by blast
qed

theorem assign_balance_witness:
  "\<exists>res. assign example_cluster example_members = Inr res \<and>
     (let P = fcard ({|2, 0, 1|} :: int fset);
          M = length (subscribed_members example_members ''t0'');
          member = subscribed_members example_members ''t0'' ! 1;
          n = length (partitions_of res member ''t0'')
      in (n = P div M \<or> n = P div M + 1) \<and>
         (n = P div M + 1 \<longleftrightarrow> 1 < P mod M) \<and>
         assigned res member ''t0'' =
           Some (take n (drop (P div M * 1 + min 1 (P mod M)) (sorted_list_of_fset {|2, 0, 1|}))))"
proof -
  have "1 < length (subscribed_members example_members ''t0'')"
    by (simp add: example_subscribed)
  with example_members_dict example_members_once example_partitions
  show ?thesis by (rule assign_balance)
qed

subsection \<open>Determinism\<close>

text \<open>
  Claim C3.  \<open>assign\<close> is a function of its two arguments, so equal inputs give equal
  results.  Moreover, let two member dicts hold the same (member id, subscription)
  pairs, in whatever order the dicts store their entries and the subscriptions list
  their topics, and with whatever version and user data.  Then \<open>assign\<close> gives every
  member the same assignment for both: the two results are equal as mappings from
  member ids.  Subscriptions that are sets of topics give the same pairs as soon as
  their topic sets are equal (lemma \<open>subscription_pairs_of_sets\<close>).
\<close>

theorem assign_deterministic:
  assumes "distinct (map fst members)" and "distinct (map fst members')"
    and "subscription_pairs members = subscription_pairs members'"
  shows "\<exists>res res'. assign cluster members = Inr res \<and> assign cluster members' = Inr res' \<and>
           map_of res = map_of res'"
proof -
  from assign_entries [of cluster members] obtain a where
    a1: "assign cluster members = Inr (protocol_assignment members a)" and
    a2: "\<And>m. distinct (map fst (a m))" and
    a3: "\<And>m t. map_of (a m) t =
          (if appended members t = [] then None else topic_entry cluster t (appended members t) m)"
    by blast
  from assign_entries [of cluster members'] obtain b where
    b1: "assign cluster members' = Inr (protocol_assignment members' b)" and
    b2: "\<And>m. distinct (map fst (b m))" and
    b3: "\<And>m t. map_of (b m) t =
          (if appended members' t = [] then None else topic_entry cluster t (appended members' t) m)"
    by blast
  have app: "mset (appended members t) = mset (appended members' t)" for t
    using assms by (rule mset_appended_pairs)
  have keys: "fst ` set members = fst ` set members'"
    using assms(3) by (rule subscription_pairs_keys)
  have emp: "appended members t = [] \<longleftrightarrow> appended members' t = []" for t
    using app [of t] by (metis mset_zero_iff)
  have "map_of (a m) t = map_of (b m) t" for m t
    using emp [of t] topic_entry_mset [OF app, where c = cluster and t = t and m = m]
    by (simp add: a3 b3)
  then have "map_of (a m) = map_of (b m)" for m by (rule ext)
  then have srt: "sort (a m) = sort (b m)" for m
    using a2 b2 by (intro sort_eq_of_map_of)
  have "map_of (protocol_assignment members a) m = map_of (protocol_assignment members' b) m" for m
    using keys by (simp add: protocol_assignment_map_of srt)
  then have "map_of (protocol_assignment members a) = map_of (protocol_assignment members' b)"
    by (rule ext)
  with a1 b1 show ?thesis by blast
qed

theorem assign_deterministic_witness:
  "\<exists>res res'. assign example_cluster example_members = Inr res \<and>
     assign example_cluster example_members_reordered = Inr res' \<and> map_of res = map_of res'"
  using example_members_dict example_members_reordered_dict example_members_reordered_pairs
  by (rule assign_deterministic)

subsection \<open>User data\<close>

text \<open>
  Claim C8 says that the user data of a member's subscription is carried through to
  its assignment.  Line 73 builds every assignment with the empty byte string: member
  C0 of the example subscribes with one byte of user data and is answered with none.
\<close>

theorem assign_user_data_counterexample:
  "map_of example_members ''C0'' =
     Some \<lparr>md_version = 0, md_subscription = [''t0'', ''t1'', ''t2''], md_user_data = [1]\<rparr> \<and>
   assign example_cluster example_members =
     Inr [(''C1'', \<lparr>as_version = 0, as_assignment = [(''t0'', [2]), (''t1'', [2])],
                   as_user_data = []\<rparr>),
          (''C0'', \<lparr>as_version = 0, as_assignment = [(''t0'', [0, 1]), (''t1'', [0, 1])],
                   as_user_data = []\<rparr>)] \<and>
   ([] :: bytes) \<noteq> [1]"
  by (simp add: assign_example) (simp add: example_members_def)

text \<open>
  Claim C8, amended.  The user data of every assignment that \<open>assign\<close> returns is the
  empty byte string, whatever the user data of the subscriptions.
\<close>

theorem assign_user_data_empty:
  "\<exists>res. assign cluster members = Inr res \<and>
     (\<forall>m a. map_of res m = Some a \<longrightarrow> as_user_data a = [])"
proof -
  from assign_entries [of cluster members] obtain a where
    "assign cluster members = Inr (protocol_assignment members a)" by blast
  then show ?thesis
    by (auto simp: protocol_assignment_map_of split: if_splits)
qed

theorem assign_user_data_empty_witness:
  "map_of [(''C1'', \<lparr>as_version = 0, as_assignment = [(''t0'', [2]), (''t1'', [2])],
                   as_user_data = []\<rparr>),
           (''C0'', \<lparr>as_version = 0, as_assignment = [(''t0'', [0, 1]), (''t1'', [0, 1])],
                   as_user_data = ([] :: bytes)\<rparr>)] ''C0'' =
     Some \<lparr>as_version = 0, as_assignment = [(''t0'', [0, 1]), (''t1'', [0, 1])],
            as_user_data = []\<rparr> \<and>
   as_user_data \<lparr>as_version = 0, as_assignment = [(''t0'', [0, 1]), (''t1'', [0, 1])],
            as_user_data = ([] :: bytes)\<rparr> = []"
  using assign_user_data_empty [of example_cluster example_members]
  by (simp add: assign_example)

subsection \<open>Topics without metadata\<close>

text \<open>
  Claim C9.  When the cluster has no partition metadata for a topic \<open>t\<close>, \<open>assign\<close>
  still returns a result (it does not raise); no member has an entry for \<open>t\<close> in it;
  the result is the one \<open>assign\<close> returns when \<open>t\<close> is removed from every
  subscription; and the other topics are assigned as usual: with \<open>members\<close> a dict,
  for every topic \<open>t'\<close> with known partitions that no subscription lists twice, the
  member at index \<open>i\<close> of the sorted subscribed member ids has the run of the sorted
  partition list that the range strategy gives it.
\<close>

theorem assign_skips_unknown_topic:
  assumes "cluster t = None"
  shows "\<exists>res. assign cluster members = Inr res \<and>
           (\<forall>m. assigned res m t = None) \<and>
           assign cluster (unsubscribe t members) = Inr res \<and>
           (distinct (map fst members) \<longrightarrow>
              (\<forall>t' ps i.
                 cluster t' = Some ps \<and>
                 (\<forall>(m, md) \<in> set members. count_list (md_subscription md) t' \<le> 1) \<and>
                 i < length (subscribed_members members t') \<longrightarrow>
                 assigned res (subscribed_members members t' ! i) t' =
                   Some (take (fcard ps div length (subscribed_members members t') +
                                 (if i < fcard ps mod length (subscribed_members members t')
                                  then 1 else 0))
                           (drop (fcard ps div length (subscribed_members members t') * i +
                                    min i (fcard ps mod length (subscribed_members members t')))
                              (sorted_list_of_fset ps)))))"
proof -
  from assign_entries [of cluster members] obtain a where
    a1: "assign cluster members = Inr (protocol_assignment members a)" and
    a2: "\<And>m. distinct (map fst (a m))" and
    a3: "\<And>m t. map_of (a m) t =
          (if appended members t = [] then None else topic_entry cluster t (appended members t) m)"
    by blast
  from assign_entries [of cluster "unsubscribe t members"] obtain b where
    b1: "assign cluster (unsubscribe t members) = Inr (protocol_assignment (unsubscribe t members) b)" and
    b2: "\<And>m. distinct (map fst (b m))" and
    b3: "\<And>m t'. map_of (b m) t' =
          (if appended (unsubscribe t members) t' = [] then None
           else topic_entry cluster t' (appended (unsubscribe t members) t') m)"
    by blast
  let ?res = "protocol_assignment members a"
  have skip: "topic_entry cluster t cs m = None" for cs m
    using assms by (simp add: topic_entry_def)
  have none: "map_of (a m) t = None" for m
    by (simp add: a3 skip)
  have 1: "assigned ?res m t = None" for m
    by (simp add: assigned_def protocol_assignment_map_of map_of_sort [OF a2] none)
  have 2: "?res = protocol_assignment (unsubscribe t members) b"
  proof (rule protocol_assignment_cong)
    show "map fst members = map fst (unsubscribe t members)"
      by (induction members) (auto simp: unsubscribe_def)
    have "map_of (a m) t' = map_of (b m) t'" for m t'
      by (simp add: a3 b3 appended_unsubscribe skip)
    then have "map_of (a m) = map_of (b m)" for m by (rule ext)
    then show "sort (a m) = sort (b m)" for m
      using a2 b2 by (intro sort_eq_of_map_of)
  qed
  have 3: "assigned ?res (subscribed_members members t' ! i) t' =
                   Some (take (fcard ps div length (subscribed_members members t') +
                                 (if i < fcard ps mod length (subscribed_members members t')
                                  then 1 else 0))
                           (drop (fcard ps div length (subscribed_members members t') * i +
                                    min i (fcard ps mod length (subscribed_members members t')))
                              (sorted_list_of_fset ps)))"
    if "distinct (map fst members)"
      "\<forall>(m, md) \<in> set members. count_list (md_subscription md) t' \<le> 1"
      "cluster t' = Some ps"
      "i < length (subscribed_members members t')" for t' ps i
    using a1 that by (rule assign_runs)
  from a1 b1 1 2 3 show ?thesis by (intro exI [of _ ?res]) (simp only: , blast)
qed

theorem assign_skips_unknown_topic_witness:
  "\<exists>res. assign example_cluster example_members = Inr res \<and>
     (\<forall>m. assigned res m ''t2'' = None) \<and>
     assign example_cluster (unsubscribe ''t2'' example_members) = Inr res \<and>
     assigned res ''C0'' ''t0'' = Some [0, 1] \<and> assigned res ''C1'' ''t0'' = Some [2]"
proof -
  have "example_cluster ''t2'' = None" by (simp add: example_cluster_def)
  from assign_skips_unknown_topic
    [where cluster = example_cluster and t = "''t2''" and members = example_members, OF this]
  obtain res where
    r: "assign example_cluster example_members = Inr res"
      "\<forall>m. assigned res m ''t2'' = None"
      "assign example_cluster (unsubscribe ''t2'' example_members) = Inr res"
    and runs: "distinct (map fst example_members) \<longrightarrow>
              (\<forall>t' ps i.
                 example_cluster t' = Some ps \<and>
                 (\<forall>(m, md) \<in> set example_members. count_list (md_subscription md) t' \<le> 1) \<and>
                 i < length (subscribed_members example_members t') \<longrightarrow>
                 assigned res (subscribed_members example_members t' ! i) t' =
                   Some (take (fcard ps div length (subscribed_members example_members t') +
                                 (if i < fcard ps mod length (subscribed_members example_members t')
                                  then 1 else 0))
                           (drop (fcard ps div length (subscribed_members example_members t') * i +
                                    min i (fcard ps mod length (subscribed_members example_members t')))
                              (sorted_list_of_fset ps))))"
    by blast
  have fc: "fcard ({|2, 0, 1|} :: int fset) = 3" by code_simp
  have sl: "sorted_list_of_fset ({|2, 0, 1|} :: int fset) = [0, 1, 2]" by code_simp
  from runs example_members_dict have run:
    "assigned res (subscribed_members example_members t' ! i) t' =
       Some (take (fcard ps div length (subscribed_members example_members t') +
                     (if i < fcard ps mod length (subscribed_members example_members t')
                      then 1 else 0))
               (drop (fcard ps div length (subscribed_members example_members t') * i +
                        min i (fcard ps mod length (subscribed_members example_members t')))
                  (sorted_list_of_fset ps)))"
    if "example_cluster t' = Some ps"
      "\<forall>(m, md) \<in> set example_members. count_list (md_subscription md) t' \<le> 1"
      "i < length (subscribed_members example_members t')" for t' ps i
    using that by blast
  let ?cs = "[''C0'', ''C1'']"
  have v0: "take (3 div length ?cs + (if 0 < 3 mod length ?cs then 1 else 0))
      (drop (3 div length ?cs * 0 + min 0 (3 mod length ?cs)) [0, 1, 2 :: int]) = [0, 1]"
    by code_simp
  have v1: "take (3 div length ?cs + (if 1 < 3 mod length ?cs then 1 else 0))
      (drop (3 div length ?cs * 1 + min 1 (3 mod length ?cs)) [0, 1, 2 :: int]) = [2]"
    by code_simp
  have n0: "?cs ! 0 = ''C0''" and n1: "?cs ! 1 = ''C1''" by simp_all
  have "(0 :: nat) < length (subscribed_members example_members ''t0'')"
    by (simp add: example_subscribed)
  from run [OF example_partitions example_members_once this]
  have c0: "assigned res ''C0'' ''t0'' = Some [0, 1]"
    by (simp only: example_subscribed fc sl v0 n0)
  have "(1 :: nat) < length (subscribed_members example_members ''t0'')"
    by (simp add: example_subscribed)
  from run [OF example_partitions example_members_once this]
  have c1: "assigned res ''C1'' ''t0'' = Some [2]"
    by (simp only: example_subscribed fc sl v1 n1)
  note c0 c1
  with r show ?thesis by blast
qed

subsection \<open>One entry per member\<close>

text \<open>
  Claim C10 says that a member that was assigned no partitions has an empty
  topic-partitions list.  With two members on a topic of one partition, the second
  member is assigned no partition, and its list holds the topic with an empty
  partition list.
\<close>

theorem assign_empty_entry_counterexample:
  "assign single_partition_cluster crowded_members =
     Inr [(''a'', \<lparr>as_version = 0, as_assignment = [(''t'', [0])], as_user_data = []\<rparr>),
          (''b'', \<lparr>as_version = 0, as_assignment = [(''t'', [])], as_user_data = []\<rparr>)] \<and>
   concat (map snd [(''t'', ([] :: int list))]) = [] \<and>
   [(''t'', ([] :: int list))] \<noteq> []"
  by (simp, code_simp)

text \<open>
  Claim C10, amended.  The result of \<open>assign\<close> has an entry for exactly the input
  member ids.  In every entry the topic-partitions pairs are ordered by topic name,
  each topic once.  A member none of whose subscribed topics has partition metadata
  (in particular a member with an empty subscription) has the empty topic-partitions
  list.
\<close>

theorem assign_entry_for_every_member:
  "\<exists>res. assign cluster members = Inr res \<and>
     (\<forall>m. (map_of res m \<noteq> None) = (m \<in> fst ` set members)) \<and>
     (\<forall>m a. map_of res m = Some a \<longrightarrow>
        sorted (map fst (as_assignment a)) \<and> distinct (map fst (as_assignment a)) \<and>
        ((\<forall>md t. (m, md) \<in> set members \<and> t \<in> set (md_subscription md) \<longrightarrow> cluster t = None)
           \<longrightarrow> as_assignment a = []))"
proof -
  from assign_entries [of cluster members] obtain a where
    a1: "assign cluster members = Inr (protocol_assignment members a)" and
    a2: "\<And>m. distinct (map fst (a m))" and
    a3: "\<And>m t. map_of (a m) t =
          (if appended members t = [] then None else topic_entry cluster t (appended members t) m)"
    by blast
  have empty: "a m = []"
    if "\<forall>md t. (m, md) \<in> set members \<and> t \<in> set (md_subscription md) \<longrightarrow> cluster t = None" for m
  proof -
    have "topic_entry cluster t (appended members t) m = None" for t
    proof (cases "m \<in> set (appended members t)")
      case True
      then have "cluster t = None" using that by (auto simp: set_appended)
      then show ?thesis by (simp add: topic_entry_def)
    next
      case False
      then have "slot (enumerate 0 (sort (appended members t))) m = None"
        by (intro slot_enumerate_None) simp
      then show ?thesis by (simp add: topic_entry_def split: option.splits)
    qed
    then have "map_of (a m) t = None" for t by (simp add: a3)
    then have "map_of (a m) = Map.empty" by (rule ext)
    then show ?thesis by simp
  qed
  have "sorted (map fst (sort (a m)))" for m by (rule sorted_keys_sort)
  moreover have "distinct (map fst (sort (a m)))" for m using a2 by (rule distinct_keys_sort)
  ultimately show ?thesis
    using a1 empty by (auto simp: protocol_assignment_map_of split: if_splits)
qed

theorem assign_entry_for_every_member_witness:
  "\<exists>res. assign example_cluster
       ((''C2'', \<lparr>md_version = 0, md_subscription = [''t2''], md_user_data = []\<rparr>) # example_members)
       = Inr res \<and>
     (\<exists>a. map_of res ''C2'' = Some a \<and> as_assignment a = []) \<and>
     (\<exists>a. map_of res ''C0'' = Some a \<and> sorted (map fst (as_assignment a)))"
proof -
  let ?ms = "(''C2'', \<lparr>md_version = 0, md_subscription = [''t2''], md_user_data = []\<rparr>) # example_members"
  from assign_entry_for_every_member [of example_cluster ?ms] obtain res where
    res: "assign example_cluster ?ms = Inr res" and
    keys: "\<And>m. (map_of res m \<noteq> None) = (m \<in> fst ` set ?ms)" and
    entry: "\<And>m a. map_of res m = Some a \<Longrightarrow>
        sorted (map fst (as_assignment a)) \<and> distinct (map fst (as_assignment a)) \<and>
        ((\<forall>md t. (m, md) \<in> set ?ms \<and> t \<in> set (md_subscription md) \<longrightarrow> example_cluster t = None)
           \<longrightarrow> as_assignment a = [])"
    by blast
  from keys [of "''C2''"] obtain a2 where a2: "map_of res ''C2'' = Some a2" by auto
  from keys [of "''C0''"] obtain a0 where a0: "map_of res ''C0'' = Some a0"
    by (auto simp: example_members_def)
  have "\<forall>md t. (''C2'', md) \<in> set ?ms \<and> t \<in> set (md_subscription md) \<longrightarrow> example_cluster t = None"
    by (auto simp: example_members_def example_cluster_def)
  with entry [OF a2] have "as_assignment a2 = []" by blast
  moreover from entry [OF a0] have "sorted (map fst (as_assignment a0))" by blast
  ultimately show ?thesis using res a2 a0 by blast
qed

section \<open>Properties of the codec\<close>

subsection \<open>Encoding and decoding\<close>

lemma length_be_bytes: "length (be_bytes n v) = n"
  by (induction n arbitrary: v) simp_all

lemma be_uint_snoc: "be_uint (bs @ [b]) = be_uint bs * 256 + uint b"
  by (simp add: be_uint_def)

lemma be_uint_be_bytes: "be_uint (be_bytes n v) = v mod 256 ^ n"
proof (induction n arbitrary: v)
  case 0
  then show ?case by (simp add: be_uint_def)
next
  case (Suc n)
  have "uint (word_of_int v :: 8 word) = v mod 256"
    by (simp add: uint_word_of_int)
  then have "be_uint (be_bytes (Suc n) v) = (v div 256 mod 256 ^ n) * 256 + v mod 256"
    by (simp add: be_uint_snoc Suc.IH)
  also have "\<dots> = v mod (256 * 256 ^ n)"
    using zmod_zmult2_eq [of "256 ^ n" v 256] by (simp add: mult.commute)
  finally show ?case by simp
qed

lemma be_uint_be_bytes_id: "0 \<le> v \<Longrightarrow> v < 256 ^ n \<Longrightarrow> be_uint (be_bytes n v) = v"
  by (simp add: be_uint_be_bytes)

lemma be_sint_be_bytes:
  assumes "- (256 ^ n) \<le> 2 * v" and "2 * v < 256 ^ n"
  shows "be_sint (be_bytes n v) = v"
proof (cases "0 \<le> v")
  case True
  with assms have "v mod 256 ^ n = v" by simp
  with assms show ?thesis by (simp add: be_sint_def be_uint_be_bytes length_be_bytes Let_def)
next
  case False
  let ?m = "(256 :: int) ^ n"
  from False assms have "0 \<le> v + ?m" "v + ?m < ?m" by simp_all
  then have "(v + ?m) mod ?m = v + ?m" by (rule mod_pos_pos_trivial)
  moreover have "(v + ?m) mod ?m = v mod ?m" by simp
  ultimately have "v mod ?m = v + ?m" by (simp only:)
  with assms show ?thesis by (simp add: be_sint_def be_uint_be_bytes length_be_bytes Let_def)
qed

lemma be_sint_8: "- (2 ^ 63) \<le> v \<Longrightarrow> v < 2 ^ 63 \<Longrightarrow> be_sint (be_bytes 8 v) = v"
  by (rule be_sint_be_bytes) simp_all

lemma be_sint_4: "- (2 ^ 31) \<le> v \<Longrightarrow> v < 2 ^ 31 \<Longrightarrow> be_sint (be_bytes 4 v) = v"
  by (rule be_sint_be_bytes) simp_all

lemma be_uint_4: "0 \<le> v \<Longrightarrow> v < 2 ^ 32 \<Longrightarrow> be_uint (be_bytes 4 v) = v"
  by (rule be_uint_be_bytes_id) simp_all

lemma crc_range_xor: "crc_range a \<Longrightarrow> crc_range b \<Longrightarrow> crc_range (a XOR b)"
  unfolding crc_range_def using XOR_upper [of a 32 b] by simp

lemma crc_range_step: "crc_range c \<Longrightarrow> crc_range (crc32_step c)"
proof -
  assume c: "crc_range c"
  then have h: "crc_range (c div 2)" by (auto simp: crc_range_def)
  have p: "crc_range 0xEDB88320" by (simp add: crc_range_def)
  show ?thesis using crc_range_xor [OF h p] h by (simp add: crc32_step_def)
qed

lemma crc_range_steps: "crc_range c \<Longrightarrow> crc_range ((crc32_step ^^ k) c)"
  by (induction k) (simp_all add: crc_range_step)

lemma crc_range_uint: "crc_range (uint (b :: 8 word))"
proof -
  have "uint b < 2 ^ 8" using uint_lt2p [of b] by simp
  then show ?thesis by (simp add: crc_range_def)
qed

lemma crc_range_update: "crc_range c \<Longrightarrow> crc_range (crc32_update c b)"
  unfolding crc32_update_def by (intro crc_range_steps crc_range_xor crc_range_uint)

lemma crc_range_foldl: "crc_range c \<Longrightarrow> crc_range (foldl crc32_update c bs)"
  by (induction bs arbitrary: c) (simp_all add: crc_range_update)

lemma crc32_range: "0 \<le> crc32 bs \<and> crc32 bs < 2 ^ 32"
proof -
  have "crc_range 0xFFFFFFFF" by (simp add: crc_range_def)
  then have "crc_range (crc32 bs)"
    unfolding crc32_def by (intro crc_range_xor crc_range_foldl)
  then show ?thesis by (simp add: crc_range_def)
qed

lemma be_bytes_Nil_iff: "be_bytes n v = [] \<longleftrightarrow> n = 0"
  using length_be_bytes [of n v] by (metis length_0_conv)

lemma length_encode_bytes: "length (encode_bytes x) = 4 + size_of x"
  by (cases x) (simp_all add: encode_bytes_def size_of_def length_be_bytes)

lemma decode_bytes_encode_bytes:
  assumes "size_of x < 2 ^ 31"
  shows "decode_bytes (encode_bytes x @ rest) = Inr (x, rest)"
proof (cases x)
  case None
  have "be_sint (be_bytes 4 (- 1)) = - 1" by (rule be_sint_4) simp_all
  then show ?thesis
    by (simp add: None decode_bytes_def encode_bytes_def length_be_bytes Let_def)
next
  case (Some bs)
  from assms have "int (length bs) < 2 ^ 31" by (simp add: Some size_of_def)
  then have "be_sint (be_bytes 4 (int (length bs))) = int (length bs)"
    by (intro be_sint_4) simp_all
  then show ?thesis
    by (simp add: Some decode_bytes_def encode_bytes_def length_be_bytes Let_def)
qed

lemma length_record_body:
  "length (record_body magic attributes timestamp key value) =
     record_overhead magic - 4 + size_of key + size_of value"
  by (simp add: record_body_def record_overhead_def length_be_bytes length_encode_bytes)

lemma length_encode_msg:
  "length (encode_msg magic offset attributes timestamp key value) = size_in_bytes magic key value"
  by (simp add: encode_msg_def Let_def length_be_bytes length_record_body size_in_bytes_def
      LOG_OVERHEAD_def record_overhead_def)

lemma decode_msg_body:
  assumes "0 \<le> crc" and "crc < 2 ^ 32" and "attributes < 256"
    and "- (2 ^ 63) \<le> timestamp" and "timestamp < 2 ^ 63"
    and "size_of key < 2 ^ 31" and "size_of value < 2 ^ 31"
  shows "decode_msg magic offset (be_bytes 4 crc @ record_body magic attributes timestamp key value) =
           Inr (decoded magic offset attributes timestamp key value crc)"
proof -
  let ?K = "encode_bytes key" and ?V = "encode_bytes value"
  have crc: "be_uint (be_bytes 4 crc) = crc" using assms(1,2) by (rule be_uint_4)
  have ts: "be_sint (be_bytes 8 timestamp) = timestamp" using assms(4,5) by (rule be_sint_8)
  have at: "unat (of_nat attributes :: 8 word) = attributes"
    using assms(3) by (simp add: unat_of_nat)
  have k: "decode_bytes (?K @ ?V) = Inr (key, ?V)"
    using assms(6) by (rule decode_bytes_encode_bytes)
  have v: "decode_bytes ?V = Inr (value, [])"
    using decode_bytes_encode_bytes [OF assms(7), of "[]"] by simp
  show ?thesis
  proof (cases "magic = 0")
    case True
    then show ?thesis
      by (simp add: decode_msg_def record_body_def record_overhead_def length_be_bytes
          length_encode_bytes Let_def crc at k v decoded_def nth_append)
  next
    case False
    then show ?thesis
      by (simp add: decode_msg_def record_body_def record_overhead_def length_be_bytes
          length_encode_bytes Let_def crc ts at k v decoded_def nth_append)
  qed
qed

lemma read_messages_encode_msg:
  assumes "- (2 ^ 63) \<le> offset" and "offset < 2 ^ 63" and "attributes < 256"
    and "- (2 ^ 63) \<le> timestamp" and "timestamp < 2 ^ 63"
    and "size_in_bytes magic key value < 2 ^ 31"
  shows "read_messages magic (encode_msg magic offset attributes timestamp key value @ rest) =
           (case read_messages magic rest of
              Inl e \<Rightarrow> Inl e
            | Inr rs \<Rightarrow>
                Inr ((decoded magic offset attributes timestamp key value
                        (crc32 (record_body magic attributes timestamp key value)),
                      record_body magic attributes timestamp key value) # rs))"
proof -
  let ?body = "record_body magic attributes timestamp key value"
  let ?crc = "crc32 ?body"
  let ?n = "4 + length ?body"
  have sz: "size_of key < 2 ^ 31" "size_of value < 2 ^ 31" "int ?n < 2 ^ 31"
    using assms(6)
    by (simp_all add: size_in_bytes_def length_record_body record_overhead_def LOG_OVERHEAD_def
        split: if_splits)
  have off: "be_sint (be_bytes 8 offset) = offset" using assms(1,2) by (rule be_sint_8)
  have len: "be_sint (be_bytes 4 (4 + int (length ?body))) = 4 + int (length ?body)"
    using sz(3) by (intro be_sint_4) simp_all
  have dec: "decode_msg magic offset (be_bytes 4 ?crc @ ?body) =
           Inr (decoded magic offset attributes timestamp key value ?crc)"
    using crc32_range [of ?body] assms(3,4,5) sz(1,2) by (intro decode_msg_body) simp_all
  show ?thesis
    apply (subst read_messages.simps)
    apply (simp add: encode_msg_def Let_def length_be_bytes be_bytes_Nil_iff LOG_OVERHEAD_def
        off len dec del: read_messages.simps split: sum.splits)
    done
qed

lemma append_cases:
  "append' b now offset timestamp key value =
     (if bld_buffer b \<noteq> [] \<and>
         current_size b + size_in_bytes (bld_magic b) key value > bld_batch_size b
      then Inr (None, b)
      else if \<not> args_encodable (bld_magic b) (now, offset, timestamp, key, value)
      then Inl InvalidArgument
      else Inr (Some (metadata_of (bld_magic b) (now, offset, timestamp, key, value)),
                b\<lparr>bld_buffer :=
                    bld_buffer b @ message_of (bld_magic b) (now, offset, timestamp, key, value)\<rparr>))"
  by (simp add: append'_def Let_def args_encodable_def metadata_of_def message_of_def)

lemma accepted_Nil: "accepted [] [] = []"
  by (simp add: accepted_def)

lemma accepted_Cons_None: "accepted (a # args) (None # metas) = accepted args metas"
  by (simp add: accepted_def)

lemma accepted_Cons_Some: "accepted (a # args) (Some m # metas) = (a, m) # accepted args metas"
  by (simp add: accepted_def)

lemma append_all_invariant:
  "append_all b args = Inr (metas, b') \<Longrightarrow>
     bld_magic b' = bld_magic b \<and> bld_compression_type b' = bld_compression_type b \<and>
     bld_batch_size b' = bld_batch_size b \<and> length metas = length args \<and>
     bld_buffer b' =
       bld_buffer b @ concat (map (message_of (bld_magic b) \<circ> fst) (accepted args metas)) \<and>
     list_all (\<lambda>(a, m). args_encodable (bld_magic b) a \<and> m = metadata_of (bld_magic b) a)
       (accepted args metas)"
proof (induction args arbitrary: b metas)
  case Nil
  then show ?case by (auto simp: accepted_Nil)
next
  case (Cons a args)
  obtain now offset timestamp key "value" where a: "a = (now, offset, timestamp, key, value)"
    by (cases a)
  from Cons.prems obtain meta b1 metas1 where
    1: "append' b now offset timestamp key value = Inr (meta, b1)" and
    2: "append_all b1 args = Inr (metas1, b')" and
    3: "metas = meta # metas1"
    by (auto simp: a split: sum.splits prod.splits)
  note IH = Cons.IH [OF 2]
  show ?case
  proof (cases meta)
    case None
    with 1 have "b1 = b" by (simp add: append_cases split: if_splits)
    with IH show ?thesis by (simp add: 3 None accepted_Cons_None)
  next
    case (Some m)
    with 1 have enc: "args_encodable (bld_magic b) a"
      and m: "m = metadata_of (bld_magic b) a"
      and b1: "b1 = b\<lparr>bld_buffer := bld_buffer b @ message_of (bld_magic b) a\<rparr>"
      by (auto simp: append_cases a split: if_splits)
    with IH show ?thesis by (simp add: 3 Some accepted_Cons_Some)
  qed
qed

lemma read_messages_Nil: "read_messages magic [] = Inr []"
  by (simp add: read_messages.simps)

lemma read_messages_messages:
  "list_all (args_encodable magic) as \<Longrightarrow>
   read_messages magic (concat (map (message_of magic) as)) =
     Inr (map (\<lambda>a. (record_of magic a, body_of magic a)) as)"
proof (induction as)
  case Nil
  then show ?case by (simp add: read_messages_Nil)
next
  case (Cons a as)
  obtain now offset timestamp key "value" where a: "a = (now, offset, timestamp, key, value)"
    by (cases a)
  let ?ts = "resolve_timestamp magic now timestamp"
  from Cons.prems have enc: "encodable offset ?ts (size_in_bytes magic key value)"
    and rest: "list_all (args_encodable magic) as"
    by (simp_all add: a args_encodable_def)
  have "read_messages magic (encode_msg magic offset 0 ?ts key value @ concat (map (message_of magic) as)) =
      Inr ((decoded magic offset 0 ?ts key value (crc32 (record_body magic 0 ?ts key value)),
            record_body magic 0 ?ts key value) # map (\<lambda>a. (record_of magic a, body_of magic a)) as)"
    using enc by (subst read_messages_encode_msg) (simp_all add: encodable_def Cons.IH [OF rest])
  then show ?case
    by (simp add: a message_of_def record_of_def body_of_def decoded_def TIMESTAMP_TYPE_MASK_def)
qed

lemma rle_pack_lossless:
  "0 < n \<Longrightarrow> n \<le> 255 \<Longrightarrow> rle_decompress (rle_pack x n ys) = replicate n x @ ys"
proof (induction ys arbitrary: x n)
  case Nil
  then show ?case by (simp add: unat_of_nat)
next
  case (Cons y ys)
  show ?case
  proof (cases "y = x \<and> n < 255")
    case True
    with Cons.IH [of "Suc n" x] show ?thesis by (simp add: replicate_app_Cons_same)
  next
    case False
    then have "rle_pack x n (y # ys) = of_nat n # x # rle_pack y 1 ys" by auto
    with Cons.prems Cons.IH [of 1 y] show ?thesis by (simp add: unat_of_nat)
  qed
qed

lemma rle_lossless: "rle_decompress (rle_compress bs) = bs"
  by (cases bs) (simp_all add: rle_compress_def rle_pack_lossless)

lemma codec_mask: "n \<le> 7 \<Longrightarrow> n AND CODEC_MASK = (n :: nat)"
proof -
  assume "n \<le> 7"
  then have "take_bit 3 n = n" by (simp add: take_bit_nat_eq_self)
  then show ?thesis by (simp add: CODEC_MASK_def take_bit_eq_mask mask_eq_exp_minus_1)
qed

lemma read_batch_build:
  assumes "read_messages (bld_magic b) (bld_buffer b) = Inr prs"
    and "list_all (\<lambda>(r, body). rec_attributes r = 0) prs"
    and "lossless_codec compress decompress (bld_magic b) (bld_compression_type b) (bld_buffer b)"
  shows "read_batch decompress (bld_magic b) (build compress b) = Inr (map fst prs)"
proof (cases "bld_compression_type b = 0")
  case True
  then have "build compress b = bld_buffer b" by (simp add: build_def)
  then show ?thesis
    using assms(1,2)
    by (auto simp: read_batch_def CODEC_MASK_def split: list.splits)
next
  case False
  let ?ct = "bld_compression_type b" and ?magic = "bld_magic b"
  let ?c = "compress ?ct (bld_buffer b)"
  from False assms(3) have ct: "?ct \<le> 7"
    and dec: "decompress ?ct ?c = Some (bld_buffer b)"
    and fits: "size_in_bytes ?magic None (Some ?c) < 2 ^ 31"
    by (simp_all add: lossless_codec_def)
  have "read_messages ?magic (encode_msg ?magic 0 ?ct 0 None (Some ?c) @ []) =
      Inr [(decoded ?magic 0 ?ct 0 None (Some ?c) (crc32 (record_body ?magic ?ct 0 None (Some ?c))),
            record_body ?magic ?ct 0 None (Some ?c))]"
    using ct fits by (subst read_messages_encode_msg) (simp_all add: read_messages_Nil)
  then show ?thesis
    using False dec assms(1)
    by (simp add: read_batch_def build_def decoded_def codec_mask [OF ct])
qed

lemma read_after_appends:
  assumes "append_all (new_builder magic ct bsz) args = Inr (metas, b)"
    and "lossless_codec compress decompress magic ct (bld_buffer b)"
  shows "read_batch decompress magic (build compress b) =
           Inr (map (record_of magic \<circ> fst) (accepted args metas))"
    and "read_messages magic (bld_buffer b) =
           Inr (map (\<lambda>(a, m). (record_of magic a, body_of magic a)) (accepted args metas))"
    and "list_all (\<lambda>(a, m). args_encodable magic a \<and> m = metadata_of magic a) (accepted args metas)"
proof -
  from append_all_invariant [OF assms(1)] have
    magic: "bld_magic b = magic" and ct: "bld_compression_type b = ct" and
    buf: "bld_buffer b = concat (map (message_of magic \<circ> fst) (accepted args metas))" and
    acc: "list_all (\<lambda>(a, m). args_encodable magic a \<and> m = metadata_of magic a) (accepted args metas)"
    by (simp_all add: new_builder_def)
  show "list_all (\<lambda>(a, m). args_encodable magic a \<and> m = metadata_of magic a) (accepted args metas)"
    by (rule acc)
  from acc have enc: "list_all (args_encodable magic) (map fst (accepted args metas))"
    by (induction "accepted args metas") (auto simp: list_all_iff)
  have rd: "read_messages magic (bld_buffer b) =
      Inr (map (\<lambda>a. (record_of magic a, body_of magic a)) (map fst (accepted args metas)))"
    using read_messages_messages [OF enc] by (simp add: buf)
  then show "read_messages magic (bld_buffer b) =
           Inr (map (\<lambda>(a, m). (record_of magic a, body_of magic a)) (accepted args metas))"
    by (simp add: case_prod_beta comp_def)
  have "read_batch decompress (bld_magic b) (build compress b) =
      Inr (map fst (map (\<lambda>a. (record_of magic a, body_of magic a)) (map fst (accepted args metas))))"
  proof (rule read_batch_build)
    show "read_messages (bld_magic b) (bld_buffer b) =
        Inr (map (\<lambda>a. (record_of magic a, body_of magic a)) (map fst (accepted args metas)))"
      using rd by (simp add: magic)
    show "list_all (\<lambda>(r, body). rec_attributes r = 0)
        (map (\<lambda>a. (record_of magic a, body_of magic a)) (map fst (accepted args metas)))"
      by (simp add: list_all_iff record_of_def case_prod_beta)
    show "lossless_codec compress decompress (bld_magic b) (bld_compression_type b) (bld_buffer b)"
      using assms(2) by (simp add: magic ct)
  qed
  then show "read_batch decompress magic (build compress b) =
           Inr (map (record_of magic \<circ> fst) (accepted args metas))"
    by (simp add: magic comp_def)
qed

lemma append_all_single:
  "append' b now offset timestamp key value = Inr (meta, b') \<Longrightarrow>
   append_all b [(now, offset, timestamp, key, value)] = Inr ([meta], b')"
  by simp

lemma append_new_builder:
  assumes "encodable offset (resolve_timestamp magic now timestamp) (size_in_bytes magic key value)"
  shows "append' (new_builder magic ct bsz) now offset timestamp key value =
     Inr (Some (metadata_of magic (now, offset, timestamp, key, value)),
          \<lparr>bld_magic = magic, bld_compression_type = ct, bld_batch_size = bsz,
           bld_buffer = message_of magic (now, offset, timestamp, key, value)\<rparr>)"
  using assms by (simp add: append_cases new_builder_def args_encodable_def)

subsection \<open>The record of the tests and the examples\<close>

lemma crc32_update_unfold:
  "crc32_update c b =
     crc32_step (crc32_step (crc32_step (crc32_step (crc32_step (crc32_step (crc32_step
       (crc32_step (c XOR uint b))))))))"
  by (simp add: crc32_update_def eval_nat_numeral)

lemma test_body_v1:
  "record_body 1 0 9999999 (Some (ascii_bytes ''test'')) (Some (ascii_bytes ''Super'')) =
     [1, 0, 0, 0, 0, 0, 0, 152, 150, 127, 0, 0, 0, 4, 116, 101, 115, 116, 0, 0, 0, 5,
      83, 117, 112, 101, 114]"
  by code_simp

lemma test_body_v0:
  "record_body 0 0 (- 1) (Some (ascii_bytes ''test'')) (Some (ascii_bytes ''Super'')) =
     [0, 0, 0, 0, 0, 4, 116, 101, 115, 116, 0, 0, 0, 5, 83, 117, 112, 101, 114]"
  by code_simp

lemma test_crc_v1:
  "crc32 (record_body 1 0 9999999 (Some (ascii_bytes ''test'')) (Some (ascii_bytes ''Super''))) = 0x831FAC85"
  unfolding test_body_v1 by (simp add: crc32_def crc32_update_unfold crc32_step_def)

lemma test_crc_v0:
  "crc32 (record_body 0 0 (- 1) (Some (ascii_bytes ''test'')) (Some (ascii_bytes ''Super''))) = 278251978"
  unfolding test_body_v0 by (simp add: crc32_def crc32_update_unfold crc32_step_def)

lemma example_body:
  "record_body 0 0 (- 1) None (Some (replicate 100 77)) =
     [0, 0, 255, 255, 255, 255, 0, 0, 0, 100, 77, 77, 77, 77, 77, 77, 77, 77, 77, 77, 77, 77,
      77, 77, 77, 77, 77, 77, 77, 77, 77, 77, 77, 77, 77, 77, 77, 77, 77, 77, 77, 77, 77, 77,
      77, 77, 77, 77, 77, 77, 77, 77, 77, 77, 77, 77, 77, 77, 77, 77, 77, 77, 77, 77, 77, 77,
      77, 77, 77, 77, 77, 77, 77, 77, 77, 77, 77, 77, 77, 77, 77, 77, 77, 77, 77, 77, 77, 77,
      77, 77, 77, 77, 77, 77, 77, 77, 77, 77, 77, 77, 77, 77, 77, 77, 77, 77, 77, 77, 77, 77]"
  by code_simp

lemma example_crc:
  "crc32 (record_body 0 0 (- 1) None (Some (replicate 100 77))) = 3773763611"
  unfolding example_body by (simp add: crc32_def crc32_update_unfold crc32_step_def)

lemma example_message:
  "message_of 0 (0, 0, None, None, Some (replicate 100 77)) =
     [0, 0, 0, 0, 0, 0, 0, 0, 0, 0, 0, 114, 224, 239, 16, 27, 0, 0, 255, 255, 255, 255, 0, 0,
      0, 100, 77, 77, 77, 77, 77, 77, 77, 77, 77, 77, 77, 77, 77, 77, 77, 77, 77, 77, 77, 77,
      77, 77, 77, 77, 77, 77, 77, 77, 77, 77, 77, 77, 77, 77, 77, 77, 77, 77, 77, 77, 77, 77,
      77, 77, 77, 77, 77, 77, 77, 77, 77, 77, 77, 77, 77, 77, 77, 77, 77, 77, 77, 77, 77, 77,
      77, 77, 77, 77, 77, 77, 77, 77, 77, 77, 77, 77, 77, 77, 77, 77, 77, 77, 77, 77, 77, 77,
      77, 77, 77, 77, 77, 77, 77, 77, 77, 77, 77, 77, 77, 77]"
  unfolding message_of_def prod.case resolve_timestamp_def encode_msg_def Let_def example_crc
  unfolding example_body
  by code_simp

lemma example_compressed:
  "rle_compress (message_of 0 (0, 0, None, None, Some (replicate 100 77))) =
     [11, 0, 1, 114, 1, 224, 1, 239, 1, 16, 1, 27, 2, 0, 4, 255, 3, 0, 1, 100, 100, 77]"
  unfolding example_message by code_simp

lemma length_message_of:
  "length (message_of magic (now, offset, timestamp, key, value)) = size_in_bytes magic key value"
  by (simp add: message_of_def length_encode_msg)

lemma append_all_snoc:
  "append_all b0 args = Inr (metas, b) \<Longrightarrow>
   append' b now offset timestamp key value = Inr (meta, b') \<Longrightarrow>
   append_all b0 (args @ [(now, offset, timestamp, key, value)]) = Inr (metas @ [meta], b')"
proof (induction args arbitrary: b0 metas)
  case Nil
  then show ?case by simp
next
  case (Cons a args)
  obtain now' offset' timestamp' key' value' where
    a: "a = (now', offset', timestamp', key', value')" by (cases a)
  from Cons.prems(1) obtain meta1 b1 metas1 where
    1: "append' b0 now' offset' timestamp' key' value' = Inr (meta1, b1)" and
    2: "append_all b1 args = Inr (metas1, b)" and
    3: "metas = meta1 # metas1"
    by (auto simp: a split: sum.splits prod.splits)
  from Cons.IH [OF 2 Cons.prems(2)] show ?case by (simp add: a 1 3)
qed

lemma accepted_snoc_None:
  "length metas = length args \<Longrightarrow> accepted (args @ [a]) (metas @ [None]) = accepted args metas"
  by (simp add: accepted_def)


subsection \<open>Round trip\<close>




subsection \<open>The checksums of the tests\<close>

text \<open>
  Claim C5 gives the checksum of the test record in format version 1 as \<open>0xD3FFC645\<close>,
  "i.e. \<open>-2095076219\<close> as a signed 32-bit value".  The append metadata carries
  \<open>0x831FAC85\<close>; \<open>0xD3FFC645\<close> is another number, and read as a signed 32-bit value it
  is not \<open>-2095076219\<close>.
\<close>

theorem test_checksum_counterexample:
  "map_sum id (map_option lrm_crc \<circ> fst)
     (append' (new_builder 1 0 (1024 * 1024)) 0 0 (Some 9999999) (Some (ascii_bytes ''test''))
        (Some (ascii_bytes ''Super''))) = Inr (Some 0x831FAC85) \<and>
   (0x831FAC85 :: int) \<noteq> 0xD3FFC645 \<and>
   (0xD3FFC645 :: int) - 2 ^ 32 \<noteq> - 2095076219"
proof -
  have "encodable 0 (resolve_timestamp 1 0 (Some 9999999))
      (size_in_bytes 1 (Some (ascii_bytes ''test'')) (Some (ascii_bytes ''Super'')))"
    by (simp add: encodable_def resolve_timestamp_def size_in_bytes_def LOG_OVERHEAD_def
        record_overhead_def size_of_def ascii_bytes_def)
  from append_new_builder [OF this, of 0 "1024 * 1024"] show ?thesis
    by (simp add: metadata_of_def resolve_timestamp_def test_crc_v1 del: One_nat_def)
qed

text \<open>
  Claim C5, amended.  Appending offset 0, timestamp 9999999, key \<^verbatim>\<open>test\<close> and value
  \<^verbatim>\<open>Super\<close> to an uncompressed Builder yields the record checksum \<open>0x831FAC85\<close> (which
  is \<open>-2095076219\<close> read as a signed 32-bit value) in format version 1 and \<open>278251978\<close>
  in format version 0, in the append metadata as well as in the record read back from
  the built buffer.
\<close>

theorem test_checksums:
  "(\<exists>b. append' (new_builder 1 0 (1024 * 1024)) now 0 (Some 9999999) (Some (ascii_bytes ''test''))
          (Some (ascii_bytes ''Super'')) =
          Inr (Some \<lparr>lrm_offset = 0, lrm_crc = 0x831FAC85, lrm_size = 43,
                     lrm_timestamp = 9999999\<rparr>, b) \<and>
        read_batch (\<lambda>_ x. Some x) 1 (build (\<lambda>_ x. x) b) =
          Inr [\<lparr>rec_offset = 0, rec_timestamp = Some 9999999, rec_timestamp_type = Some 0,
                rec_key = Some (ascii_bytes ''test''), rec_value = Some (ascii_bytes ''Super''),
                rec_checksum = 0x831FAC85, rec_attributes = 0\<rparr>]) \<and>
   (\<exists>b. append' (new_builder 0 0 (1024 * 1024)) now 0 (Some 9999999) (Some (ascii_bytes ''test''))
          (Some (ascii_bytes ''Super'')) =
          Inr (Some \<lparr>lrm_offset = 0, lrm_crc = 278251978, lrm_size = 35,
                     lrm_timestamp = - 1\<rparr>, b) \<and>
        read_batch (\<lambda>_ x. Some x) 0 (build (\<lambda>_ x. x) b) =
          Inr [\<lparr>rec_offset = 0, rec_timestamp = None, rec_timestamp_type = None,
                rec_key = Some (ascii_bytes ''test''), rec_value = Some (ascii_bytes ''Super''),
                rec_checksum = 278251978, rec_attributes = 0\<rparr>]) \<and>
   (0x831FAC85 :: int) - 2 ^ 32 = - 2095076219"
proof -
  let ?k = "Some (ascii_bytes ''test'')" and ?v = "Some (ascii_bytes ''Super'')"
  have sz: "size_in_bytes 1 ?k ?v = 43" "size_in_bytes 0 ?k ?v = 35"
    by (simp_all add: size_in_bytes_def LOG_OVERHEAD_def record_overhead_def size_of_def
        ascii_bytes_def)
  have e1: "encodable 0 (resolve_timestamp 1 now (Some 9999999)) (size_in_bytes 1 ?k ?v)"
    by (simp add: encodable_def resolve_timestamp_def sz del: One_nat_def)
  have e0: "encodable 0 (resolve_timestamp 0 now (Some 9999999)) (size_in_bytes 0 ?k ?v)"
    by (simp add: encodable_def resolve_timestamp_def sz)
  note a1 = append_new_builder [OF e1, of 0 "1024 * 1024"]
  note a0 = append_new_builder [OF e0, of 0 "1024 * 1024"]
  have c: "lossless_codec (\<lambda>_ x. x) (\<lambda>_ x. Some x) m 0 buf" for m buf
    by (simp add: lossless_codec_def)
  from read_after_appends(1) [OF append_all_single [OF a1] c]
  have r1: "read_batch (\<lambda>_ x. Some x) 1 (build (\<lambda>_ x. x)
      \<lparr>bld_magic = 1, bld_compression_type = 0, bld_batch_size = 1024 * 1024,
       bld_buffer = message_of 1 (now, 0, Some 9999999, ?k, ?v)\<rparr>) =
      Inr [record_of 1 (now, 0, Some 9999999, ?k, ?v)]"
    by (simp add: accepted_Cons_Some accepted_Nil del: One_nat_def)
  from read_after_appends(1) [OF append_all_single [OF a0] c]
  have r0: "read_batch (\<lambda>_ x. Some x) 0 (build (\<lambda>_ x. x)
      \<lparr>bld_magic = 0, bld_compression_type = 0, bld_batch_size = 1024 * 1024,
       bld_buffer = message_of 0 (now, 0, Some 9999999, ?k, ?v)\<rparr>) =
      Inr [record_of 0 (now, 0, Some 9999999, ?k, ?v)]"
    by (simp add: accepted_Cons_Some accepted_Nil)
  have v1: "\<exists>b. append' (new_builder 1 0 (1024 * 1024)) now 0 (Some 9999999) ?k ?v =
          Inr (Some \<lparr>lrm_offset = 0, lrm_crc = 0x831FAC85, lrm_size = 43,
                     lrm_timestamp = 9999999\<rparr>, b) \<and>
        read_batch (\<lambda>_ x. Some x) 1 (build (\<lambda>_ x. x) b) =
          Inr [\<lparr>rec_offset = 0, rec_timestamp = Some 9999999, rec_timestamp_type = Some 0,
                rec_key = ?k, rec_value = ?v,
                rec_checksum = 0x831FAC85, rec_attributes = 0\<rparr>]"
    using a1 r1
    by (simp add: metadata_of_def record_of_def resolve_timestamp_def test_crc_v1 sz
        del: One_nat_def)
  have v0: "\<exists>b. append' (new_builder 0 0 (1024 * 1024)) now 0 (Some 9999999) ?k ?v =
          Inr (Some \<lparr>lrm_offset = 0, lrm_crc = 278251978, lrm_size = 35,
                     lrm_timestamp = - 1\<rparr>, b) \<and>
        read_batch (\<lambda>_ x. Some x) 0 (build (\<lambda>_ x. x) b) =
          Inr [\<lparr>rec_offset = 0, rec_timestamp = None, rec_timestamp_type = None,
                rec_key = ?k, rec_value = ?v,
                rec_checksum = 278251978, rec_attributes = 0\<rparr>]"
    using a0 r0
    by (simp add: metadata_of_def record_of_def resolve_timestamp_def test_crc_v0 sz)
  have s: "(0x831FAC85 :: int) - 2 ^ 32 = - 2095076219" by simp
  from v1 v0 s show ?thesis by (intro conjI)
qed

subsection \<open>The first record of a batch\<close>

text \<open>
  Claim C6 says that, for any codec, the built buffer is longer than the value of the
  first record.  With a compressing codec the batch is the wrapper around the
  compressed payload: a value of 100 equal bytes, appended to a builder with a
  run-length codec, is built into 48 bytes.
\<close>

theorem first_append_length_counterexample:
  "append' (new_builder 0 1 64) 0 0 None None (Some (replicate 100 77)) =
     Inr (Some (metadata_of 0 (0, 0, None, None, Some (replicate 100 77))), compressed_example) \<and>
   rle_decompress (rle_compress (bld_buffer compressed_example)) = bld_buffer compressed_example \<and>
   length (build (\<lambda>_. rle_compress) compressed_example) = 48 \<and>
   size_of (Some (replicate 100 (77 :: 8 word))) = 100"
proof -
  have "encodable 0 (resolve_timestamp 0 0 None) (size_in_bytes 0 None (Some (replicate 100 77)))"
    by (simp add: encodable_def resolve_timestamp_def size_in_bytes_def LOG_OVERHEAD_def
        record_overhead_def size_of_def)
  from append_new_builder [OF this, of 1 64]
  have 1: "append' (new_builder 0 1 64) 0 0 None None (Some (replicate 100 77)) =
     Inr (Some (metadata_of 0 (0, 0, None, None, Some (replicate 100 77))), compressed_example)"
    by (simp add: compressed_example_def del: One_nat_def)
  have 2: "length (build (\<lambda>_. rle_compress) compressed_example) = 48"
    by (simp add: build_def compressed_example_def example_compressed length_encode_msg
        size_in_bytes_def LOG_OVERHEAD_def record_overhead_def size_of_def)
  show ?thesis by (simp add: 1 2 rle_lossless size_of_def del: One_nat_def)
qed

text \<open>
  Claim C6, amended.  For every format version, codec and maximum batch size, however
  small, the first record appended to an empty batch is accepted whenever it can be
  encoded at all (offset and timestamp within signed 64 bits, encoded size below
  \<open>2 ^ 31\<close>): append returns metadata, not absent, whatever the size of the record.
  Without compression the built buffer is longer than the value of the record.
\<close>

theorem first_append_accepted:
  assumes "encodable offset (resolve_timestamp magic now timestamp) (size_in_bytes magic key value)"
  shows "\<exists>meta b. append' (new_builder magic compression_type batch_size) now offset timestamp key value =
           Inr (Some meta, b) \<and>
         lrm_offset meta = offset \<and> lrm_size meta = size_in_bytes magic key value \<and>
         (compression_type = 0 \<longrightarrow> size_of value < length (build compress b))"
proof -
  have "size_of value < size_in_bytes magic key value"
    by (simp add: size_in_bytes_def LOG_OVERHEAD_def)
  then show ?thesis
    using append_new_builder [OF assms, of compression_type batch_size]
    by (simp add: metadata_of_def build_def length_message_of)
qed

theorem first_append_accepted_witness:
  "\<exists>meta b. append' (new_builder 0 0 1024) 0 0 None None (Some (replicate 2000 77)) =
           Inr (Some meta, b) \<and>
         lrm_offset meta = 0 \<and>
         lrm_size meta = size_in_bytes 0 None (Some (replicate 2000 77)) \<and>
         2000 < length (build (\<lambda>_ x. x) b)"
proof -
  have "encodable 0 (resolve_timestamp 0 0 None) (size_in_bytes 0 None (Some (replicate 2000 77)))"
    by (simp add: encodable_def resolve_timestamp_def size_in_bytes_def LOG_OVERHEAD_def
        record_overhead_def size_of_def)
  from first_append_accepted [OF this, of 0 1024 "\<lambda>_ x. x"] show ?thesis
    by (simp add: size_of_def)
qed

subsection \<open>Rejected appends\<close>

text \<open>
  Claim C7.  An append to a non-empty Builder that would take the buffer beyond the
  maximum batch size returns absent, not an error, and the builder it leaves is the
  builder it found.  Hence, when the builder was reached from a new one by a sequence
  of appends, the sequence extended by the rejected append ends in the same builder
  with the same accepted records, and what \<open>build\<close> returns reads back as exactly the
  records accepted before.
\<close>

theorem oversized_append_rejected:
  assumes "bld_buffer b \<noteq> []"
    and "bld_batch_size b < current_size b + size_in_bytes (bld_magic b) key value"
  shows "append' b now offset timestamp key value = Inr (None, b) \<and>
    (\<forall>args metas.
       append_all (new_builder (bld_magic b) (bld_compression_type b) (bld_batch_size b)) args =
         Inr (metas, b) \<longrightarrow>
       append_all (new_builder (bld_magic b) (bld_compression_type b) (bld_batch_size b))
         (args @ [(now, offset, timestamp, key, value)]) = Inr (metas @ [None], b) \<and>
       accepted (args @ [(now, offset, timestamp, key, value)]) (metas @ [None]) =
         accepted args metas \<and>
       (lossless_codec compress decompress (bld_magic b) (bld_compression_type b) (bld_buffer b) \<longrightarrow>
          read_batch decompress (bld_magic b) (build compress b) =
            Inr (map (record_of (bld_magic b) \<circ> fst) (accepted args metas))))"
proof -
  have rej: "append' b now offset timestamp key value = Inr (None, b)"
    using assms by (simp add: append_cases)
  have "append_all (new_builder (bld_magic b) (bld_compression_type b) (bld_batch_size b))
         (args @ [(now, offset, timestamp, key, value)]) = Inr (metas @ [None], b) \<and>
       accepted (args @ [(now, offset, timestamp, key, value)]) (metas @ [None]) =
         accepted args metas \<and>
       (lossless_codec compress decompress (bld_magic b) (bld_compression_type b) (bld_buffer b) \<longrightarrow>
          read_batch decompress (bld_magic b) (build compress b) =
            Inr (map (record_of (bld_magic b) \<circ> fst) (accepted args metas)))"
    if run: "append_all (new_builder (bld_magic b) (bld_compression_type b) (bld_batch_size b)) args =
         Inr (metas, b)" for args metas
  proof -
    from append_all_invariant [OF run] have len: "length metas = length args" by simp
    show ?thesis
      using append_all_snoc [OF run rej] accepted_snoc_None [OF len] read_after_appends(1) [OF run]
      by simp
  qed
  with rej show ?thesis by blast
qed

theorem oversized_append_rejected_witness:
  "append' full_example 0 1 None None (Some (replicate 700 77)) = Inr (None, full_example)"
proof -
  have 1: "bld_buffer full_example \<noteq> []"
    using length_message_of [of 0 0 0 None None "Some (replicate 700 77)"]
    by (auto simp: full_example_def size_in_bytes_def LOG_OVERHEAD_def)
  have 2: "bld_batch_size full_example
      < current_size full_example + size_in_bytes (bld_magic full_example) None (Some (replicate 700 77))"
    by (simp add: full_example_def current_size_def length_message_of size_in_bytes_def
        LOG_OVERHEAD_def record_overhead_def size_of_def)
  from oversized_append_rejected [OF 1 2] show ?thesis by blast
qed

end
